theory Spec2Isabelle
  imports Complex_Main "HOL-Library.Word" "HOL-Library.Signed_Division"
begin

unbundle bit_operations_syntax

section \<open>Synchronization primitives (Python/lock.c)\<close>

text \<open>
  Every primitive of lock.c is one pointer-sized word \<open>v\<close> with flags in its low bits.
  The word is a \<open>uintptr_t\<close>, here a 64-bit word. Thread states are addressed by the value
  of their pointer.
\<close>

type_synonym uintptr = "64 word"

text \<open>
  Modelled from the spec: the flag constants of lock.h, which is not among the sources.
  The spec gives \<open>UNLOCKED=0\<close> and \<open>LOCKED=1\<close>; lock.c tests the parked flag as
  \<open>(v & 2) == HAS_PARKED\<close> and masks both flags with \<open>~3\<close>, so \<open>HAS_PARKED\<close> is 2.
\<close>

definition UNLOCKED :: uintptr where
  "UNLOCKED = 0"

definition LOCKED :: uintptr where
  "LOCKED = 1"

definition HAS_PARKED :: uintptr where
  "HAS_PARKED = 2"

text \<open>\<open>Py_FatalError(msg)\<close> aborts the process: it is the error value of every result.\<close>

datatype fatal = Py_FatalError string

subsection \<open>Raw mutex: slow-path unlock\<close>

text \<open>
  \<open>_PyRawMutex_unlock_slow\<close> loops: load \<open>m->v\<close>; abort if the LOCKED bit is clear;
  otherwise pop the first waiter (the upper bits of the word) with a compare-and-swap and
  signal it, or store UNLOCKED when there is no waiter. The compare-and-swap fails only
  when another thread has written \<open>m->v\<close> since the load. The list \<open>env\<close> holds these
  racing writes in order: each one makes one compare-and-swap fail and is the value the
  next iteration loads; once it is used up the compare-and-swap succeeds.
  \<open>next_waiter\<close> reads \<open>waiter->os->next_waiter\<close>. The result is the new word and the
  thread whose semaphore was signalled, if any.
\<close>

fun PyRawMutex_unlock_slow ::
  "(uintptr \<Rightarrow> uintptr) \<Rightarrow> uintptr list \<Rightarrow> uintptr \<Rightarrow> fatal + (uintptr \<times> uintptr option)" where
  "PyRawMutex_unlock_slow next_waiter [] v =
     (if v AND 1 = UNLOCKED then Inl (Py_FatalError ''unlocking mutex that is not locked'')
      else let waiter = v AND NOT 1 in
        if waiter \<noteq> 0 then Inr (next_waiter waiter, Some waiter)
        else Inr (UNLOCKED, None))"
| "PyRawMutex_unlock_slow next_waiter (w # env) v =
     (if v AND 1 = UNLOCKED then Inl (Py_FatalError ''unlocking mutex that is not locked'')
      else PyRawMutex_unlock_slow next_waiter env w)"

subsection \<open>Raw event and event: notify\<close>

text \<open>
  \<open>_PyRawEvent_Notify\<close> exchanges LOCKED into \<open>o->v\<close> and looks at the old value \<open>v\<close>:
  nothing to do when it was UNLOCKED, fatal when it was LOCKED already, otherwise it is the
  waiter, whose semaphore is signalled. The result is the new word and the signalled thread.
\<close>

definition PyRawEvent_Notify :: "uintptr \<Rightarrow> fatal + (uintptr \<times> uintptr option)" where
  "PyRawEvent_Notify v =
     (if v = UNLOCKED then Inr (LOCKED, None)
      else if v = LOCKED then Inl (Py_FatalError ''_PyRawEvent: duplicate notifications'')
      else Inr (LOCKED, Some v))"

text \<open>
  \<open>_PyEvent_Notify\<close> has the same shape, but its duplicate-notification branch only
  returns (the call of \<open>Py_FatalError\<close> there is commented out), and the last branch wakes
  every parked thread. The function has no failing path, so its result is the new word and
  whether \<open>_PyParkingLot_UnparkAll\<close> was called.
\<close>

definition PyEvent_Notify :: "uintptr \<Rightarrow> uintptr \<times> bool" where
  "PyEvent_Notify v =
     (if v = UNLOCKED then (LOCKED, False)
      else if v = LOCKED then (LOCKED, False)
      else (LOCKED, True))"

subsection \<open>Recursive mutex: slow-path lock\<close>

record PyRecursiveMutex =
  v :: uintptr
  recursions :: "64 word"

text \<open>
  The parking loop of \<open>_PyRecursiveMutex_lock_slow\<close> depends on the other threads. One
  event of the schedule is consumed by each iteration: \<open>RacingWrite w\<close> is a write of
  \<open>w\<close> by another thread after the load, so that the pending compare-and-swap fails, or
  \<open>_PyParkingLot_Park\<close> finds the word changed and returns at once, and the next
  iteration loads \<open>w\<close>; \<open>ParkReturns ok handoff w\<close> is the return of
  \<open>_PyParkingLot_Park\<close> after a wake-up (\<open>ok\<close>: the result is \<open>PY_PARK_OK\<close>;
  \<open>handoff\<close>: \<open>tstate->handoff_elem\<close>), with \<open>w\<close> the word at that moment. When the
  schedule is used up, a pending compare-and-swap succeeds and a park never returns.
\<close>

datatype lock_event = RacingWrite uintptr | ParkReturns bool bool uintptr

datatype lock_result = Returned PyRecursiveMutex | ParkedForever PyRecursiveMutex

fun park_loop :: "uintptr \<Rightarrow> lock_event list \<Rightarrow> PyRecursiveMutex \<Rightarrow> lock_result" where
  "park_loop tid [] m =
     (if v m AND 1 = UNLOCKED
      then Returned (m\<lparr>v := tid OR (v m AND HAS_PARKED) OR LOCKED\<rparr>)
      else ParkedForever (m\<lparr>v := v m OR HAS_PARKED\<rparr>))"
| "park_loop tid (RacingWrite w # env) m = park_loop tid env (m\<lparr>v := w\<rparr>)"
| "park_loop tid (ParkReturns ok handoff w # env) m =
     (if v m AND 1 = UNLOCKED
      then Returned (m\<lparr>v := tid OR (v m AND HAS_PARKED) OR LOCKED\<rparr>)
      else if ok \<and> handoff then Returned (m\<lparr>v := w\<rparr>)
      else park_loop tid env (m\<lparr>v := w\<rparr>))"

text \<open>
  \<open>tid\<close> is \<open>_Py_ThreadId()\<close>, \<open>tstate\<close> the calling thread's state and \<open>finalizing\<close>
  the value of \<open>_PyRuntime.finalizing\<close>.
\<close>

definition PyRecursiveMutex_lock_slow ::
  "uintptr \<Rightarrow> uintptr \<Rightarrow> uintptr \<Rightarrow> lock_event list \<Rightarrow> PyRecursiveMutex \<Rightarrow> lock_result" where
  "PyRecursiveMutex_lock_slow tid tstate finalizing env m =
     (if v m AND NOT 3 = tid then Returned (m\<lparr>recursions := recursions m + 1\<rparr>)
      else if finalizing = tstate then Returned (m\<lparr>recursions := recursions m + 1\<rparr>)
      else park_loop tid env m)"

section \<open>The collector's object header (Modules/gcmodule.c)\<close>

text \<open>
  A \<open>PyGC_Head\<close> is the pair of words \<open>_gc_next\<close>, \<open>_gc_prev\<close> in front of every
  collectable object. An object is identified with the address of its header
  (\<open>AS_GC\<close> and \<open>FROM_GC\<close> convert between the two by a constant offset).
\<close>

record PyGC_Head =
  gc_next :: uintptr
  gc_prev :: uintptr

text \<open>
  Modelled from the spec: the bit layout of \<open>_gc_prev\<close>, which pycore_gc.h declares and
  the sources do not include. The spec lists the low bits as TRACKED, FINALIZED,
  UNREACHABLE, in this order, and the remaining bits as the shifted \<open>gc_refs\<close> counter or
  the back pointer; \<open>_PyGC_PREV_MASK\<close> selects these remaining bits. gcmodule.c uses two
  spellings of the flag masks (\<open>_PyGC_PREV_MASK_TRACKED\<close> and \<open>GC_TRACKED_MASK\<close>, and so
  on) for the same bits.
\<close>

definition PyGC_PREV_MASK_TRACKED :: uintptr where
  "PyGC_PREV_MASK_TRACKED = 1"

definition PyGC_PREV_MASK_FINALIZED :: uintptr where
  "PyGC_PREV_MASK_FINALIZED = 2"

definition PyGC_PREV_MASK_UNREACHABLE :: uintptr where
  "PyGC_PREV_MASK_UNREACHABLE = 4"

definition PyGC_PREV_SHIFT :: nat where
  "PyGC_PREV_SHIFT = 3"

definition PyGC_PREV_MASK :: uintptr where
  "PyGC_PREV_MASK = push_bit PyGC_PREV_SHIFT (- 1)"

abbreviation GC_TRACKED_MASK :: uintptr where
  "GC_TRACKED_MASK \<equiv> PyGC_PREV_MASK_TRACKED"

abbreviation GC_FINALIZED_MASK :: uintptr where
  "GC_FINALIZED_MASK \<equiv> PyGC_PREV_MASK_FINALIZED"

abbreviation GC_UNREACHABLE_MASK :: uintptr where
  "GC_UNREACHABLE_MASK \<equiv> PyGC_PREV_MASK_UNREACHABLE"

text \<open>
  The accessors of gcmodule.c, as functions of the word \<open>_gc_prev\<close>. \<open>gc_get_refs\<close>
  casts to \<open>Py_ssize_t\<close> and shifts arithmetically; \<open>gc_add_refs\<close> and \<open>gc_decref\<close> add
  to the shifted counter in unsigned arithmetic, which wraps.
\<close>

definition gc_set_unreachable :: "uintptr \<Rightarrow> uintptr" where
  "gc_set_unreachable p = p OR PyGC_PREV_MASK_UNREACHABLE"

definition gc_is_unreachable :: "uintptr \<Rightarrow> bool" where
  "gc_is_unreachable p \<longleftrightarrow> p AND PyGC_PREV_MASK_UNREACHABLE \<noteq> 0"

definition gc_get_refs :: "uintptr \<Rightarrow> int" where
  "gc_get_refs p = sint (signed_drop_bit PyGC_PREV_SHIFT p)"

definition gc_set_refs :: "uintptr \<Rightarrow> int \<Rightarrow> uintptr" where
  "gc_set_refs p refs = (p AND NOT PyGC_PREV_MASK) OR push_bit PyGC_PREV_SHIFT (word_of_int refs)"

definition gc_add_refs :: "uintptr \<Rightarrow> int \<Rightarrow> uintptr" where
  "gc_add_refs p refs = p + push_bit PyGC_PREV_SHIFT (word_of_int refs)"

definition gc_decref :: "uintptr \<Rightarrow> uintptr" where
  "gc_decref p = p - push_bit PyGC_PREV_SHIFT 1"

text \<open>
  Modelled from the spec: the header macros of pycore_gc.h that gcmodule.c calls. They
  test and set the flag bits of the layout above; \<open>_PyGCHead_SET_PREV\<close> stores a pointer
  in the bits of \<open>_PyGC_PREV_MASK\<close> and keeps the flags ("the pointer is restored before
  the list is used as a normal doubly-linked list"); \<open>_PyGCHead_NEXT\<close> reads \<open>_gc_next\<close>.
\<close>

definition PyGC_TRACKED :: "uintptr \<Rightarrow> bool" where
  "PyGC_TRACKED p \<longleftrightarrow> p AND PyGC_PREV_MASK_TRACKED \<noteq> 0"

definition PyGCHead_FINALIZED :: "uintptr \<Rightarrow> bool" where
  "PyGCHead_FINALIZED p \<longleftrightarrow> p AND PyGC_PREV_MASK_FINALIZED \<noteq> 0"

definition PyGCHead_SET_FINALIZED :: "uintptr \<Rightarrow> uintptr" where
  "PyGCHead_SET_FINALIZED p = p OR PyGC_PREV_MASK_FINALIZED"

definition PyGCHead_SET_PREV :: "uintptr \<Rightarrow> uintptr \<Rightarrow> uintptr" where
  "PyGCHead_SET_PREV p ptr = (p AND NOT PyGC_PREV_MASK) OR ptr"

subsection \<open>Clearing a list: \<open>gc_list_clear\<close> on the linked nodes\<close>

text \<open>
  The memory of the headers is a function from addresses to \<open>PyGC_Head\<close>. A list is its
  head, a \<open>PyGC_Head\<close> too, and the nodes its \<open>_gc_next\<close> pointers link. \<open>gc_list_clear\<close>
  follows \<open>_gc_next\<close> from the head until it is back at the head, resets each node on the
  way, then re-initialises the head. Pointers that never lead back to the head make the
  loop run forever: the result is \<open>None\<close>.

  gcmodule.c holds two bodies of \<open>gc_list_clear\<close>, one after the other; they differ in
  the mask only. \<open>gc_list_clear\<close> below is the second one, which keeps
  \<open>GC_TRACKED_MASK | GC_FINALIZED_MASK\<close>; \<open>gc_list_clear_first\<close> is the first one, which
  keeps \<open>~_PyGC_PREV_MASK\<close>, that is all three flags.
\<close>

type_synonym gc_memory = "uintptr \<Rightarrow> PyGC_Head"

definition gc_list_init :: "uintptr \<Rightarrow> gc_memory \<Rightarrow> gc_memory" where
  "gc_list_init list h = h(list := \<lparr>gc_next = list, gc_prev = list\<rparr>)"

partial_function (option) gc_list_clear_loop ::
  "uintptr \<Rightarrow> uintptr \<Rightarrow> uintptr \<Rightarrow> gc_memory \<Rightarrow> gc_memory option" where
  "gc_list_clear_loop keep list gc h =
     (if gc = list then Some h
      else gc_list_clear_loop keep list (gc_next (h gc))
             (h(gc := \<lparr>gc_next = 0, gc_prev = gc_prev (h gc) AND keep\<rparr>)))"

declare gc_list_clear_loop.simps [code]

definition gc_list_clear_first :: "uintptr \<Rightarrow> gc_memory \<Rightarrow> gc_memory option" where
  "gc_list_clear_first list h =
     map_option (gc_list_init list)
       (gc_list_clear_loop (NOT PyGC_PREV_MASK) list (gc_next (h list)) h)"


text \<open>
  \<open>gc_path h gc xs list\<close>: following \<open>_gc_next\<close> from \<open>gc\<close> visits the nodes \<open>xs\<close> and
  then the head. \<open>gc_list h list xs\<close>: the nodes of the list are \<open>xs\<close>, each once.
\<close>

fun gc_path :: "gc_memory \<Rightarrow> uintptr \<Rightarrow> uintptr list \<Rightarrow> uintptr \<Rightarrow> bool" where
  "gc_path h gc [] list \<longleftrightarrow> gc = list"
| "gc_path h gc (x # xs) list \<longleftrightarrow> gc = x \<and> x \<noteq> list \<and> gc_path h (gc_next (h x)) xs list"

definition gc_list :: "gc_memory \<Rightarrow> uintptr \<Rightarrow> uintptr list \<Rightarrow> bool" where
  "gc_list h list xs \<longleftrightarrow> gc_path h (gc_next (h list)) xs list \<and> distinct xs"

section \<open>Biased reference counts: \<open>incref_merge\<close>\<close>

text \<open>
  The fields of \<open>PyObject\<close> that \<open>incref_merge\<close> writes. \<open>ob_ref_local\<close> and
  \<open>ob_ref_shared\<close> are 32-bit words (gcmodule.c prints both with \<open>%x\<close>); \<open>ob_tid\<close> is a
  pointer-sized thread id.
\<close>

record PyObject =
  ob_tid :: uintptr
  ob_ref_local :: "32 word"
  ob_ref_shared :: "32 word"

text \<open>
  The shifts and masks of the two words are declared outside the sources, so they are a
  parameter of the functions that use them.
\<close>

record ref_layout =
  Py_REF_LOCAL_SHIFT :: nat
  Py_REF_IMMORTAL_MASK :: "32 word"
  Py_REF_SHARED_SHIFT :: nat
  Py_REF_MERGED_MASK :: "32 word"

text \<open>
  Modelled from the spec: \<open>_PyRef_UnpackLocal\<close> and \<open>_PyRef_UnpackShared\<close> of
  pycore_refcnt.h. The spec has \<open>ref_local = (count << shift) | immortal_bit\<close> and
  \<open>ref_shared = (count << shift) | merged | queued\<close>. The shared count is signed: it goes
  below zero when other threads have dropped references that the owner holds in the local
  count, and gcmodule.c asserts \<open>_Py_GC_REFCNT(op) >= 0\<close> of the sum.
\<close>

definition PyRef_UnpackLocal :: "ref_layout \<Rightarrow> 32 word \<Rightarrow> int \<times> bool" where
  "PyRef_UnpackLocal L bits =
     (uint (drop_bit (Py_REF_LOCAL_SHIFT L) bits), bits AND Py_REF_IMMORTAL_MASK L \<noteq> 0)"

definition PyRef_UnpackShared :: "ref_layout \<Rightarrow> 32 word \<Rightarrow> int" where
  "PyRef_UnpackShared L bits = sint (signed_drop_bit (Py_REF_SHARED_SHIFT L) bits)"

definition Py_GC_REFCNT :: "ref_layout \<Rightarrow> PyObject \<Rightarrow> int" where
  "Py_GC_REFCNT L op =
     fst (PyRef_UnpackLocal L (ob_ref_local op)) + PyRef_UnpackShared L (ob_ref_shared op)"

text \<open>
  \<open>incref_merge\<close>: the sum \<open>(local_refcount + 1) << _Py_REF_SHARED_SHIFT\<close> is computed in
  \<open>Py_ssize_t\<close> and added to the 32-bit field, which keeps its low 32 bits. The two
  assertions (the world is stopped, the object is not immortal) are debug assertions and
  change nothing.
\<close>

definition incref_merge :: "ref_layout \<Rightarrow> PyObject \<Rightarrow> PyObject" where
  "incref_merge L op =
     (let local_refcount = fst (PyRef_UnpackLocal L (ob_ref_local op)) in
      op\<lparr>ob_ref_shared :=
           (ob_ref_shared op + push_bit (Py_REF_SHARED_SHIFT L) (word_of_int (local_refcount + 1)))
             OR Py_REF_MERGED_MASK L,
         ob_ref_local := 0,
         ob_tid := 0\<rparr>)"

section \<open>The collector's state and the entry of a collection\<close>

datatype PyGC_Reason = GC_REASON_HEAP | GC_REASON_SHUTDOWN | GC_REASON_MANUAL

record gc_generation_stats =
  collections :: int
  collected :: int
  uncollectable :: int

text \<open>
  The state \<open>collect\<close> reads and writes: the fields of \<open>GCState\<close>, the stop-the-world
  mutex and flag of \<open>_PyRuntime\<close>, and \<open>cant_stop_wont_stop\<close> of the calling thread.
  A field holds a value of its C type, \<open>Py_ssize_t\<close> or \<open>int\<close>, as an integer.
\<close>

record GCState =
  enabled :: int
  debug :: int
  collecting :: int
  gc_live :: int
  gc_threshold :: int
  gc_scale :: int
  stats :: gc_generation_stats
  stoptheworld_mutex :: bool
  stop_the_world :: bool
  cant_stop_wont_stop :: int

text \<open>\<open>_PyGC_InitState\<close>, when \<open>PYTHONGC\<close> is not set, on a runtime at rest.\<close>

definition PyGC_InitState :: GCState where
  "PyGC_InitState =
     \<lparr>enabled = 1, debug = 0, collecting = 0, gc_live = 0, gc_threshold = 7000, gc_scale = 100,
      stats = \<lparr>collections = 0, collected = 0, uncollectable = 0\<rparr>,
      stoptheworld_mutex = False, stop_the_world = False, cant_stop_wont_stop = 0\<rparr>"




datatype py_error = TypeError | OverflowError | ValueError string



text \<open>
  Modelled from the spec: \<open>_PyGC_ShouldCollect\<close> of pycore_gc.h. A collection for the
  reason HEAP goes ahead when the live-object count has reached \<open>gc_threshold\<close>.
\<close>

definition PyGC_ShouldCollect :: "GCState \<Rightarrow> bool" where
  "PyGC_ShouldCollect gcstate \<longleftrightarrow> gc_threshold gcstate \<le> gc_live gcstate"

definition gc_reason_is_valid :: "GCState \<Rightarrow> PyGC_Reason \<Rightarrow> bool" where
  "gc_reason_is_valid gcstate reason =
     (if reason = GC_REASON_HEAP then PyGC_ShouldCollect gcstate else True)"

text \<open>
  The callbacks of \<open>gc.callbacks\<close> are Python code. A callback is given as a function of
  the state, of which \<open>invoke_gc_callback\<close> takes what Python code can change: the fields
  behind \<open>gc.enable\<close>, \<open>gc.disable\<close>, \<open>gc.set_debug\<close> and \<open>gc.set_threshold\<close>, and the
  live-object count, which allocation changes. \<open>collecting\<close> is written by \<open>collect\<close>
  alone, and a \<open>gc.collect()\<close> inside a callback returns at the first test of \<open>collect\<close>;
  the mutex, the world and \<open>cant_stop_wont_stop\<close> belong to the C runtime. The list of
  callbacks is \<open>None\<close> for \<open>gcstate->callbacks == NULL\<close>; \<open>phase\<close> is \<open>''start''\<close> or
  \<open>''stop''\<close>.
\<close>

type_synonym gc_callback = "string \<Rightarrow> int \<Rightarrow> int \<Rightarrow> GCState \<Rightarrow> GCState"

definition call_callback :: "(GCState \<Rightarrow> GCState) \<Rightarrow> GCState \<Rightarrow> GCState" where
  "call_callback cb gcstate =
     (let u = cb gcstate
      in gcstate\<lparr>enabled := enabled u, debug := debug u,
                 gc_threshold := gc_threshold u, gc_live := gc_live u\<rparr>)"

definition invoke_gc_callback ::
  "gc_callback list option \<Rightarrow> string \<Rightarrow> int \<Rightarrow> int \<Rightarrow> GCState \<Rightarrow> GCState" where
  "invoke_gc_callback callbacks phase ncollected nuncollectable gcstate =
     (case callbacks of
        None \<Rightarrow> gcstate
      | Some cbs \<Rightarrow> fold (\<lambda>cb. call_callback (cb phase ncollected nuncollectable)) cbs gcstate)"

text \<open>
  A call either returns a value and leaves a state, or never returns: \<open>_PyMutex_lock\<close> on a
  mutex that is held waits for its owner.
\<close>

datatype 'a outcome = Returns 'a GCState | Blocks GCState

text \<open>
  \<open>collect\<close>, statement by statement up to its second \<open>_PyMutex_lock\<close>:
  \<^item> return 0 when \<open>collecting\<close> is set, and when \<open>cant_stop_wont_stop\<close> is set;
  \<^item> lock the stop-the-world mutex; when the reason is not valid, unlock and return 0;
  \<^item> stop the world, store 1 in \<open>collecting\<close>, invoke the callbacks with \<open>''start''\<close>
    unless the reason is SHUTDOWN;
  \<^item> return 0 when \<open>cant_stop_wont_stop\<close> is set;
  \<^item> compare-and-swap \<open>collecting\<close> from 0 to 1, and return 0 when it fails;
  \<^item> when the reason is not valid, store 0 in \<open>collecting\<close> and return 0;
  \<^item> lock the stop-the-world mutex again.
  The thread holds the mutex since the first lock and nothing on the way releases it, so
  the second lock never returns, and the statements behind it (the collection proper) are
  not reached from here.
\<close>

definition collect :: "gc_callback list option \<Rightarrow> PyGC_Reason \<Rightarrow> GCState \<Rightarrow> int outcome" where
  "collect callbacks reason gcstate =
     (if collecting gcstate \<noteq> 0 then Returns 0 gcstate
      else if cant_stop_wont_stop gcstate \<noteq> 0 then Returns 0 gcstate
      else if stoptheworld_mutex gcstate then Blocks gcstate
      else
        let s1 = gcstate\<lparr>stoptheworld_mutex := True\<rparr> in
        if \<not> gc_reason_is_valid s1 reason then Returns 0 (s1\<lparr>stoptheworld_mutex := False\<rparr>)
        else
          let s2 = s1\<lparr>stop_the_world := True\<rparr>;
              s3 = s2\<lparr>collecting := 1\<rparr>;
              s4 = (if reason \<noteq> GC_REASON_SHUTDOWN
                    then invoke_gc_callback callbacks ''start'' 0 0 s3 else s3)
          in
          if cant_stop_wont_stop s4 \<noteq> 0 then Returns 0 s4
          else if collecting s4 \<noteq> 0 then Returns 0 s4
          else
            let s5 = s4\<lparr>collecting := 1\<rparr> in
            if \<not> gc_reason_is_valid s5 reason then Returns 0 (s5\<lparr>collecting := 0\<rparr>)
            else Blocks s5)"



text \<open>
  \<open>gc.collect(generation)\<close>: \<open>-1\<close> with a ValueError set is the error result.
\<close>

definition gc_collect_impl ::
  "gc_callback list option \<Rightarrow> int \<Rightarrow> GCState \<Rightarrow> (py_error + int) outcome" where
  "gc_collect_impl callbacks generation gcstate =
     (if generation < 0 \<or> generation \<ge> 3
      then Returns (Inl (ValueError ''invalid generation'')) gcstate
      else case collect callbacks GC_REASON_MANUAL gcstate of
             Returns n s \<Rightarrow> Returns (Inr n) s
           | Blocks s \<Rightarrow> Blocks s)"

section \<open>Finalizers: \<open>finalize_garbage\<close>\<close>

text \<open>
  The state of a run of finalizers: the word \<open>_gc_prev\<close> of every object, whatever else
  the finalizers can change (\<open>world\<close>), and the calls of \<open>tp_finalize\<close> made so far, each
  with the object's \<open>_gc_prev\<close> when \<open>_PyGCHead_FINALIZED\<close> tested it and its \<open>_gc_prev\<close>
  at the moment of the call.
\<close>

record 'w fin_state =
  prevs :: "uintptr \<Rightarrow> uintptr"
  world :: 'w
  finalizer_calls :: "(uintptr \<times> uintptr \<times> uintptr) list"

text \<open>
  \<open>tp_finalize gc\<close> is the slot of the object's type: \<open>None\<close> for NULL, otherwise the
  finalizer, Python code that acts on \<open>world\<close>. \<open>finalize_garbage\<close> walks the list
  \<open>collectable\<close> from its first node. Every node of the list holds the reference that
  \<open>incref_merge\<close> gave it before the world was restarted, so no finalizer frees a node and
  the walk sees the list as it was.
\<close>

fun finalize_garbage ::
  "(uintptr \<Rightarrow> ('w \<Rightarrow> 'w) option) \<Rightarrow> uintptr list \<Rightarrow> 'w fin_state \<Rightarrow> 'w fin_state" where
  "finalize_garbage tp_finalize [] s = s"
| "finalize_garbage tp_finalize (gc # collectable) s =
     finalize_garbage tp_finalize collectable
       (if \<not> PyGCHead_FINALIZED (prevs s gc) then
          (case tp_finalize gc of
             None \<Rightarrow> s
           | Some finalize \<Rightarrow>
               let s' = s\<lparr>prevs := (prevs s)(gc := PyGCHead_SET_FINALIZED (prevs s gc))\<rparr>
               in s'\<lparr>world := finalize (world s'),
                     finalizer_calls := finalizer_calls s' @ [(gc, prevs s gc, prevs s' gc)]\<rparr>)
        else s)"

text \<open>
  What the collector does to \<open>_gc_prev\<close> between two runs of finalizers, in this and in
  later collections: the accessors above, the two bodies of \<open>gc_list_clear\<close>, and
  \<open>update_refs\<close>, which clears FINALIZED on the exact tuples and dicts that
  \<open>_PyTuple_MaybeUntrack\<close> and \<open>_PyDict_MaybeUntrack\<close> untrack (\<open>exact gc\<close>: the object
  is one of these). A pointer stored by \<open>_PyGCHead_SET_PREV\<close> is the address of a
  \<open>PyGC_Head\<close>, whose flag bits are zero.
\<close>

datatype gc_op =
    Finalize_garbage "uintptr list"
  | Gc_set_refs uintptr int
  | Gc_add_refs uintptr int
  | Gc_decref uintptr
  | Gc_set_unreachable uintptr
  | Clear_unreachable uintptr
  | Set_prev uintptr uintptr
  | List_clear_node uintptr
  | List_clear_first_node uintptr
  | Untrack_exact uintptr

fun gc_step ::
  "(uintptr \<Rightarrow> ('w \<Rightarrow> 'w) option) \<Rightarrow> (uintptr \<Rightarrow> bool) \<Rightarrow> gc_op \<Rightarrow> 'w fin_state \<Rightarrow> 'w fin_state" where
  "gc_step tp_finalize exact (Finalize_garbage collectable) s = finalize_garbage tp_finalize collectable s"
| "gc_step tp_finalize exact (Gc_set_refs gc refs) s = s\<lparr>prevs := (prevs s)(gc := gc_set_refs (prevs s gc) refs)\<rparr>"
| "gc_step tp_finalize exact (Gc_add_refs gc refs) s = s\<lparr>prevs := (prevs s)(gc := gc_add_refs (prevs s gc) refs)\<rparr>"
| "gc_step tp_finalize exact (Gc_decref gc) s = s\<lparr>prevs := (prevs s)(gc := gc_decref (prevs s gc))\<rparr>"
| "gc_step tp_finalize exact (Gc_set_unreachable gc) s = s\<lparr>prevs := (prevs s)(gc := gc_set_unreachable (prevs s gc))\<rparr>"
| "gc_step tp_finalize exact (Clear_unreachable gc) s =
     s\<lparr>prevs := (prevs s)(gc := prevs s gc AND NOT PyGC_PREV_MASK_UNREACHABLE)\<rparr>"
| "gc_step tp_finalize exact (Set_prev gc ptr) s =
     s\<lparr>prevs := (prevs s)(gc := PyGCHead_SET_PREV (prevs s gc) (ptr AND PyGC_PREV_MASK))\<rparr>"
| "gc_step tp_finalize exact (List_clear_node gc) s =
     s\<lparr>prevs := (prevs s)(gc := prevs s gc AND (GC_TRACKED_MASK OR GC_FINALIZED_MASK))\<rparr>"
| "gc_step tp_finalize exact (List_clear_first_node gc) s =
     s\<lparr>prevs := (prevs s)(gc := prevs s gc AND NOT PyGC_PREV_MASK)\<rparr>"
| "gc_step tp_finalize exact (Untrack_exact gc) s =
     (if exact gc
      then s\<lparr>prevs := (prevs s)(gc := (prevs s gc AND NOT PyGC_PREV_MASK_TRACKED)
                                          AND NOT PyGC_PREV_MASK_FINALIZED)\<rparr>
      else s)"

definition gc_steps ::
  "(uintptr \<Rightarrow> ('w \<Rightarrow> 'w) option) \<Rightarrow> (uintptr \<Rightarrow> bool) \<Rightarrow> gc_op list \<Rightarrow> 'w fin_state \<Rightarrow> 'w fin_state" where
  "gc_steps tp_finalize exact steps s = fold (gc_step tp_finalize exact) steps s"

section \<open>Finding the unreachable objects\<close>

text \<open>
  An object is named by the address of its \<open>PyGC_Head\<close>; \<open>FROM_GC\<close> and \<open>AS_GC\<close> move
  between the header and the object by a constant. What the collector reads of an object
  besides \<open>_gc_prev\<close> is in \<open>type_info\<close>: the objects that the \<open>tp_traverse\<close> of its type
  passes to the visitor, in order and with repetitions, \<open>_PyObject_IS_GC\<close>, the value of
  \<open>_Py_GC_REFCNT\<close>, and whether the object is an exact tuple or dict that
  \<open>_PyTuple_MaybeUntrack\<close> or \<open>_PyDict_MaybeUntrack\<close> untracks. The world is stopped, so
  these do not change during the pass.
\<close>

record type_info =
  tp_traverse :: "uintptr \<Rightarrow> uintptr list"
  PyObject_IS_GC :: "uintptr \<Rightarrow> bool"
  refcount :: "uintptr \<Rightarrow> int"
  maybe_untracked :: "uintptr \<Rightarrow> bool"

text \<open>The word \<open>_gc_prev\<close> of every object.\<close>

type_synonym gc_prevs = "uintptr \<Rightarrow> uintptr"

definition visit_decref :: "type_info \<Rightarrow> uintptr \<Rightarrow> gc_prevs \<Rightarrow> gc_prevs" where
  "visit_decref H op p =
     (if PyObject_IS_GC H op \<and> PyGC_TRACKED (p op) then p(op := gc_decref (p op)) else p)"

definition visit_incref :: "type_info \<Rightarrow> uintptr \<Rightarrow> gc_prevs \<Rightarrow> gc_prevs" where
  "visit_incref H op p =
     (if PyObject_IS_GC H op \<and> PyGC_TRACKED (p op) then p(op := gc_add_refs (p op) 1) else p)"

text \<open>
  \<open>stack\<close> lists the objects that \<open>_PyGC_TraverseStack\<close> passes to \<open>visit_incref\<close> over the
  frames of all threads: the references that the interpreter holds without counting them.
\<close>

definition visit_thread_stacks :: "type_info \<Rightarrow> uintptr list \<Rightarrow> gc_prevs \<Rightarrow> gc_prevs" where
  "visit_thread_stacks H stack p = fold (visit_incref H) stack p"

text \<open>
  \<open>update_refs\<close> is the visitor of the refcount-subtraction pass. Its argument is the list
  \<open>young\<close> under construction, kept here as the sequence of its nodes from the head on: the
  three stores at the end of \<open>update_refs\<close> append \<open>gc\<close> at the tail. The pass adds to
  \<open>gc_refs\<close>, which other objects visited earlier may already have decremented.
  Untracking an object clears TRACKED in its \<open>_gc_prev\<close>. The assertions of \<open>update_refs\<close>
  and \<open>gc_add_refs\<close> are compiled out of a release build and are no branches here.
\<close>

definition update_refs ::
  "type_info \<Rightarrow> uintptr \<Rightarrow> gc_prevs \<times> uintptr list \<Rightarrow> gc_prevs \<times> uintptr list" where
  "update_refs H gc st =
     (let p = fst st; list = snd st in
      if maybe_untracked H gc
      then (p(gc := (p gc AND NOT PyGC_PREV_MASK_TRACKED) AND NOT PyGC_PREV_MASK_FINALIZED), list)
      else
        let p1 = p(gc := gc_add_refs (p gc) (refcount H gc));
            p2 = fold (visit_decref H) (tp_traverse H gc) p1
        in (p2, list @ [gc]))"

text \<open>
  \<open>visit_heap\<close> walks the pages of the collector's heaps and of the abandoned segments;
  \<open>blocks\<close> lists the blocks in the order of the walk. \<open>visit_page\<close> calls the visitor on
  the blocks that are tracked at that moment.
\<close>

definition visit_heap ::
  "(uintptr \<Rightarrow> gc_prevs \<times> uintptr list \<Rightarrow> gc_prevs \<times> uintptr list) \<Rightarrow> uintptr list
    \<Rightarrow> gc_prevs \<times> uintptr list \<Rightarrow> gc_prevs \<times> uintptr list" where
  "visit_heap visitor blocks st =
     fold (\<lambda>gc st. if PyGC_TRACKED (fst st gc) then visitor gc st else st) blocks st"

text \<open>
  \<open>_PyGC_RUNTIME_ASSERT\<close> stays in a release build: when it fails, the collection aborts.
\<close>

datatype gc_abort = PyObject_AssertFailed string

text \<open>
  The state of \<open>move_unreachable\<close>. The list \<open>young\<close> is \<open>scanned\<close> followed by \<open>pending\<close>:
  \<open>scanned\<close> are the nodes to the left of the cursor \<open>gc\<close>, ending in \<open>prev\<close>, and \<open>pending\<close>
  starts at \<open>gc\<close>. \<open>unreachable\<close> is the second list. The links \<open>_gc_next\<close> are the order of
  these sequences; the words \<open>_gc_prev\<close>, which hold \<open>gc_refs\<close>, the flags and later the
  back pointers, are explicit. An object has a non-zero \<open>_gc_next\<close> exactly when it is on
  one of the lists: outside a collection \<open>_gc_next\<close> is zero, as \<open>gc_list_clear\<close> leaves it.
\<close>

record partition =
  gc_prevs :: gc_prevs
  scanned :: "uintptr list"
  pending :: "uintptr list"
  unreachable :: "uintptr list"

text \<open>
  \<open>visit_reachable\<close>, with the addresses of the two list heads: \<open>GC_PREV\<close> of the first
  node of a list is the head. An object flagged UNREACHABLE is unlinked from \<open>unreachable\<close>
  (the back pointer of its successor is redirected), appended to \<open>young\<close> by
  \<open>gc_list_append\<close>, given \<open>gc_refs = 1\<close> and unflagged. \<open>GC_PREV\<close> of a node of
  \<open>unreachable\<close> is its predecessor in the sequence: the node was appended behind it, and
  an unlinking redirects the back pointer of the successor.
\<close>

definition visit_reachable ::
  "type_info \<Rightarrow> uintptr \<Rightarrow> uintptr \<Rightarrow> uintptr \<Rightarrow> partition \<Rightarrow> gc_abort + partition" where
  "visit_reachable H young_head unreachable_head op s =
     (if \<not> PyObject_IS_GC H op then Inr s
      else if op \<notin> set (scanned s @ pending s @ unreachable s) then Inr s
      else if gc_get_refs (gc_prevs s op) < 0
        then Inl (PyObject_AssertFailed ''refcount is too small'')
      else if gc_is_unreachable (gc_prevs s op) then
        let before = takeWhile (\<lambda>x. x \<noteq> op) (unreachable s);
            after = tl (dropWhile (\<lambda>x. x \<noteq> op) (unreachable s));
            prev = last (unreachable_head # before);
            p1 = (case after of [] \<Rightarrow> gc_prevs s
                  | next # _ \<Rightarrow> (gc_prevs s)(next := PyGCHead_SET_PREV (gc_prevs s next) prev));
            last_young = last (young_head # scanned s @ pending s);
            p2 = p1(op := PyGCHead_SET_PREV (p1 op) last_young);
            p3 = p2(op := gc_set_refs (p2 op) 1);
            p4 = p3(op := p3 op AND NOT PyGC_PREV_MASK_UNREACHABLE)
        in Inr (s\<lparr>gc_prevs := p4, pending := pending s @ [op], unreachable := before @ after\<rparr>)
      else if gc_get_refs (gc_prevs s op) = 0 then
        Inr (s\<lparr>gc_prevs := (gc_prevs s)(op := gc_set_refs (gc_prevs s op) 1)\<rparr>)
      else Inr s)"

text \<open>The call of \<open>tp_traverse\<close> with \<open>visit_reachable\<close> as the visitor.\<close>

fun traverse_reachable ::
  "type_info \<Rightarrow> uintptr \<Rightarrow> uintptr \<Rightarrow> uintptr list \<Rightarrow> partition \<Rightarrow> gc_abort + partition" where
  "traverse_reachable H young_head unreachable_head [] s = Inr s"
| "traverse_reachable H young_head unreachable_head (op # ops) s =
     (case visit_reachable H young_head unreachable_head op s of
        Inl e \<Rightarrow> Inl e
      | Inr s' \<Rightarrow> traverse_reachable H young_head unreachable_head ops s')"

text \<open>
  The loop of \<open>move_unreachable\<close>. It ends when the cursor is back at the head of \<open>young\<close>,
  that is when nothing is pending; a run that never gets there has the value \<open>None\<close>.
\<close>

partial_function (option) move_unreachable_loop ::
  "type_info \<Rightarrow> uintptr \<Rightarrow> uintptr \<Rightarrow> partition \<Rightarrow> (gc_abort + partition) option" where
  "move_unreachable_loop H young_head unreachable_head s =
     (case pending s of
        [] \<Rightarrow> Some (Inr s)
      | gc # rest \<Rightarrow>
          if gc_get_refs (gc_prevs s gc) < 0
          then Some (Inl (PyObject_AssertFailed ''refcount is too small''))
          else if gc_get_refs (gc_prevs s gc) \<noteq> 0 then
            (case traverse_reachable H young_head unreachable_head (tp_traverse H gc) s of
               Inl e \<Rightarrow> Some (Inl e)
             | Inr s' \<Rightarrow>
                 move_unreachable_loop H young_head unreachable_head
                   (s'\<lparr>gc_prevs := (gc_prevs s')(gc :=
                          PyGCHead_SET_PREV (gc_prevs s' gc) (last (young_head # scanned s'))),
                       scanned := scanned s' @ [gc],
                       pending := tl (pending s')\<rparr>))
          else
            move_unreachable_loop H young_head unreachable_head
              (s\<lparr>gc_prevs := (gc_prevs s)(gc :=
                     gc_set_unreachable
                       (PyGCHead_SET_PREV (gc_prevs s gc) (last (unreachable_head # unreachable s)))),
                   pending := rest,
                   unreachable := unreachable s @ [gc]\<rparr>))"

declare move_unreachable_loop.simps [code]

definition move_unreachable ::
  "type_info \<Rightarrow> uintptr \<Rightarrow> uintptr \<Rightarrow> gc_prevs \<times> uintptr list \<Rightarrow> uintptr list
     \<Rightarrow> (gc_abort + partition) option" where
  "move_unreachable H young_head unreachable_head st unreach =
     move_unreachable_loop H young_head unreachable_head
       \<lparr>gc_prevs = fst st, scanned = [], pending = snd st, unreachable = unreach\<rparr>"

text \<open>\<open>deduce_unreachable\<close> empties \<open>unreachable\<close> with \<open>gc_list_init\<close> and moves.\<close>

definition deduce_unreachable ::
  "type_info \<Rightarrow> uintptr \<Rightarrow> uintptr \<Rightarrow> gc_prevs \<times> uintptr list \<Rightarrow> (gc_abort + partition) option" where
  "deduce_unreachable H base_head unreachable_head st =
     move_unreachable H base_head unreachable_head st []"





section \<open>Notions of the statements and of the proofs\<close>

subsection \<open>The log of finalizer calls\<close>

text \<open>
  The invariant of the log: every logged call found FINALIZED clear and was made with
  FINALIZED set, the object has a finalizer and is still marked FINALIZED, and no object
  is logged twice.
\<close>

definition log_ok :: "(uintptr \<Rightarrow> ('w \<Rightarrow> 'w) option) \<Rightarrow> 'w fin_state \<Rightarrow> bool" where
  "log_ok tp_finalize s \<longleftrightarrow>
     distinct (map fst (finalizer_calls s))
     \<and> list_all (\<lambda>(gc, tested, called).
          \<not> PyGCHead_FINALIZED tested \<and> PyGCHead_FINALIZED called
          \<and> PyGCHead_FINALIZED (prevs s gc) \<and> tp_finalize gc \<noteq> None) (finalizer_calls s)"

subsection \<open>Reference counts and reachability\<close>

text \<open>
  The working set of a collection: the blocks that the pass finds tracked and that stay
  tracked, in the order of the walk. \<open>visit_incref\<close> and \<open>visit_decref\<close> leave the flag
  TRACKED alone, so the test reads the headers as they are before the pass.
\<close>

definition working_set :: "type_info \<Rightarrow> gc_prevs \<Rightarrow> uintptr list \<Rightarrow> uintptr list" where
  "working_set H p blocks = filter (\<lambda>b. PyGC_TRACKED (p b) \<and> \<not> maybe_untracked H b) blocks"

text \<open>
  The references to \<open>op\<close> held by the objects of the working set, and the references to
  \<open>op\<close> from outside of it: the counted references that no object of the working set
  holds, and the uncounted references of the thread stacks.
\<close>

definition internal_refs :: "type_info \<Rightarrow> uintptr list \<Rightarrow> uintptr \<Rightarrow> int" where
  "internal_refs H ws op = (\<Sum>b\<leftarrow>ws. int (count_list (tp_traverse H b) op))"

definition external_refs :: "type_info \<Rightarrow> uintptr list \<Rightarrow> uintptr list \<Rightarrow> uintptr \<Rightarrow> int" where
  "external_refs H stack ws op = refcount H op + int (count_list stack op) - internal_refs H ws op"

text \<open>
  The references between objects of \<open>W\<close> that \<open>visit_reachable\<close> follows, and the objects
  of the working set that a chain of them reaches from an object referenced from outside.
\<close>

definition edges :: "type_info \<Rightarrow> uintptr set \<Rightarrow> (uintptr \<times> uintptr) set" where
  "edges H W = {(x, y). x \<in> W \<and> y \<in> W \<and> PyObject_IS_GC H y \<and> y \<in> set (tp_traverse H x)}"

definition reachable_from_outside :: "type_info \<Rightarrow> uintptr list \<Rightarrow> uintptr list \<Rightarrow> uintptr set" where
  "reachable_from_outside H stack young =
     (edges H (set young))\<^sup>* `` {op \<in> set young. 0 < external_refs H stack young op}"

text \<open>
  An address that can stand in \<open>_gc_prev\<close> as a back pointer: its three low bits are zero,
  and read as \<open>gc_refs\<close> it is positive, as every user-space address is. The collector
  reads \<open>gc_refs\<close> of scanned nodes, whose \<open>_gc_prev\<close> is a pointer again.
\<close>

definition valid_gc_ptr :: "uintptr \<Rightarrow> bool" where
  "valid_gc_ptr a \<longleftrightarrow> a AND NOT PyGC_PREV_MASK = 0 \<and> 0 < gc_get_refs a"

text \<open>
  The invariant of the refcount-subtraction pass after the blocks \<open>bs\<close>, from the headers
  \<open>q\<close>: the list holds the working set among \<open>bs\<close>, the flag TRACKED changed only on
  untracked blocks, and an object that stays tracked has had its reference count added if
  the walk has met it, and the references from the working set so far subtracted.
\<close>

definition pass_inv :: "type_info \<Rightarrow> gc_prevs \<Rightarrow> uintptr list \<Rightarrow> gc_prevs \<times> uintptr list \<Rightarrow> bool" where
  "pass_inv H q bs st \<longleftrightarrow>
     snd st = working_set H q bs
   \<and> (\<forall>a. \<not> (a \<in> set bs \<and> maybe_untracked H a) \<longrightarrow> PyGC_TRACKED (fst st a) = PyGC_TRACKED (q a))
   \<and> (\<forall>a. PyGC_TRACKED (q a) \<and> \<not> maybe_untracked H a \<and> PyObject_IS_GC H a \<longrightarrow>
         fst st a = gc_add_refs (q a)
           ((if a \<in> set bs then refcount H a else 0) - internal_refs H (working_set H q bs) a))"

text \<open>
  The invariant of \<open>move_unreachable\<close>, the one of the comment in its body. \<open>W\<close> is the
  working set and \<open>roots\<close> its objects referenced from outside. A node of \<open>young\<close> is marked
  when its \<open>gc_refs\<close> is positive. Marked nodes are reachable from the roots, the roots
  are marked, and what a scanned node references in \<open>W\<close> is marked.
\<close>

definition marked :: "partition \<Rightarrow> uintptr \<Rightarrow> bool" where
  "marked s x \<longleftrightarrow> x \<in> set (scanned s @ pending s) \<and> 0 < gc_get_refs (gc_prevs s x)"

definition partition_inv :: "type_info \<Rightarrow> uintptr set \<Rightarrow> uintptr set \<Rightarrow> partition \<Rightarrow> bool" where
  "partition_inv H W roots s \<longleftrightarrow>
     distinct (scanned s @ pending s @ unreachable s)
   \<and> set (scanned s @ pending s @ unreachable s) = W
   \<and> (\<forall>x \<in> set (unreachable s). gc_is_unreachable (gc_prevs s x) \<and> 0 \<le> gc_get_refs (gc_prevs s x))
   \<and> (\<forall>x \<in> set (scanned s @ pending s).
         \<not> gc_is_unreachable (gc_prevs s x) \<and> 0 \<le> gc_get_refs (gc_prevs s x))
   \<and> (\<forall>x \<in> set (scanned s). 0 < gc_get_refs (gc_prevs s x))
   \<and> (\<forall>x. marked s x \<longrightarrow> x \<in> (edges H W)\<^sup>* `` roots)
   \<and> (\<forall>x \<in> set (scanned s). \<forall>y \<in> set (tp_traverse H x).
         y \<in> W \<and> PyObject_IS_GC H y \<longrightarrow> marked s y)
   \<and> (\<forall>x \<in> roots. marked s x)"

text \<open>What one call of \<open>visit_reachable\<close> from a reachable node keeps and achieves.\<close>

definition visit_post :: "type_info \<Rightarrow> uintptr set \<Rightarrow> uintptr set \<Rightarrow> partition \<Rightarrow> partition \<Rightarrow> bool" where
  "visit_post H W roots s s' \<longleftrightarrow>
     partition_inv H W roots s'
   \<and> scanned s' = scanned s
   \<and> (\<exists>ys. pending s' = pending s @ ys)
   \<and> length (pending s') + length (unreachable s') = length (pending s) + length (unreachable s)
   \<and> (\<forall>z. marked s z \<longrightarrow> marked s' z)"

subsection \<open>Example inputs\<close>


text \<open>
  A layout with two flag bits under each count, the merged flag in bit 0 of
  \<open>ob_ref_shared\<close> and the immortal flag in bit 0 of \<open>ob_ref_local\<close>.
\<close>

definition example_layout :: ref_layout where
  "example_layout =
     \<lparr>Py_REF_LOCAL_SHIFT = 2, Py_REF_IMMORTAL_MASK = 1,
      Py_REF_SHARED_SHIFT = 2, Py_REF_MERGED_MASK = 1\<rparr>"

text \<open>
  The objects \<open>0x200\<close> and \<open>0x300\<close> have a finalizer, which counts its calls. The first
  run of \<open>finalize_garbage\<close> meets \<open>0x200\<close> twice; later \<open>0x200\<close> has its \<open>gc_refs\<close> set
  and is cleared from a list, \<open>0x400\<close> is untracked, and a second run meets \<open>0x200\<close>
  again.
\<close>

definition example_tp_finalize :: "uintptr \<Rightarrow> (nat \<Rightarrow> nat) option" where
  "example_tp_finalize gc = (if gc = 0x200 \<or> gc = 0x300 then Some Suc else None)"

definition example_steps :: "gc_op list" where
  "example_steps =
     [Finalize_garbage [0x200, 0x300, 0x200], Gc_set_refs 0x200 0, List_clear_node 0x200,
      Untrack_exact 0x400, Finalize_garbage [0x200, 0x400]]"



text \<open>
  A heap of five tracked objects with one counted reference each: a chain in which
  \<open>0x1020\<close> references \<open>0x1010\<close>, which references \<open>0x1000\<close>, and a cycle of \<open>0x1030\<close> and
  \<open>0x1040\<close>, which also references \<open>0x5000\<close>, an object that is not collectable. Only the
  reference to \<open>0x1020\<close> comes from outside.
\<close>

definition example_types :: type_info where
  "example_types =
     \<lparr>tp_traverse = (\<lambda>x. if x = 0x1010 then [0x1000] else if x = 0x1020 then [0x1010]
        else if x = 0x1030 then [0x1040] else if x = 0x1040 then [0x1030, 0x5000] else []),
      PyObject_IS_GC = (\<lambda>x. x \<noteq> 0x5000),
      refcount = (\<lambda>x. 1),
      maybe_untracked = (\<lambda>x. False)\<rparr>"

definition example_blocks :: "uintptr list" where
  "example_blocks = [0x1000, 0x1010, 0x1020, 0x1030, 0x1040]"

definition example_headers :: gc_prevs where
  "example_headers = (\<lambda>_. PyGC_PREV_MASK_TRACKED)"


section \<open>Properties of the synchronization primitives\<close>

lemma unlock_slow_unlocked:
  "m AND 1 = UNLOCKED \<Longrightarrow>
   PyRawMutex_unlock_slow nw env m = Inl (Py_FatalError ''unlocking mutex that is not locked'')"
  by (cases env) simp_all

lemma unlock_slow_locked:
  "m AND 1 \<noteq> UNLOCKED \<Longrightarrow> \<forall>w \<in> set env. w AND 1 \<noteq> UNLOCKED \<Longrightarrow>
   \<exists>r. PyRawMutex_unlock_slow nw env m = Inr r"
  by (induction env arbitrary: m) (simp_all add: Let_def)

text \<open>
  C8. Unlocking a raw mutex whose word is UNLOCKED, and notifying a raw event that is
  LOCKED (notified) already, end in \<open>Py_FatalError\<close>. When the mutex is locked, and stays
  locked under the racing writes of the waiters, the unlock returns; when the event has not
  been notified, the notification returns.
\<close>

theorem raw_fatal_iff_misuse:
  "(m AND 1 = UNLOCKED \<longrightarrow>
      PyRawMutex_unlock_slow nw env m = Inl (Py_FatalError ''unlocking mutex that is not locked''))
   \<and> (m AND 1 \<noteq> UNLOCKED \<and> (\<forall>w \<in> set env. w AND 1 \<noteq> UNLOCKED) \<longrightarrow>
      (\<exists>r. PyRawMutex_unlock_slow nw env m = Inr r))
   \<and> PyRawEvent_Notify LOCKED = Inl (Py_FatalError ''_PyRawEvent: duplicate notifications'')
   \<and> (e \<noteq> LOCKED \<longrightarrow> (\<exists>r. PyRawEvent_Notify e = Inr r))"
  using unlock_slow_unlocked [of m nw env] unlock_slow_locked [of m env nw]
  by (auto simp: PyRawEvent_Notify_def LOCKED_def UNLOCKED_def)

text \<open>
  The witness: the word 0 is unlocked and the unlock aborts; the word \<open>0x1001\<close> is locked
  with the waiter \<open>0x1000\<close>, a second waiter \<open>0x2000\<close> pushes itself meanwhile and is the
  one popped; the event word \<open>0x1000\<close> holds a waiter and is not yet notified.
\<close>

theorem raw_fatal_iff_misuse_witness:
  "(0 :: uintptr) AND 1 = UNLOCKED
   \<and> PyRawMutex_unlock_slow (\<lambda>t. if t = 0x2000 then 0x1001 else 0) [] 0
       = Inl (Py_FatalError ''unlocking mutex that is not locked'')
   \<and> (0x1001 :: uintptr) AND 1 \<noteq> UNLOCKED
   \<and> (0x2001 :: uintptr) AND 1 \<noteq> UNLOCKED
   \<and> PyRawMutex_unlock_slow (\<lambda>t. if t = 0x2000 then 0x1001 else 0) [0x2001] 0x1001
       = Inr (0x1001, Some 0x2000)
   \<and> (0x1000 :: uintptr) \<noteq> LOCKED
   \<and> PyRawEvent_Notify 0x1000 = Inr (LOCKED, Some 0x1000)"
  using raw_fatal_iff_misuse [of 0 "\<lambda>t. if t = 0x2000 then 0x1001 else 0" "[]" "0x1000"]
    raw_fatal_iff_misuse [of "0x1001" "\<lambda>t. if t = 0x2000 then 0x1001 else 0" "[0x2001]" "0x1000"]
  by (simp add: PyRawEvent_Notify_def LOCKED_def UNLOCKED_def)

text \<open>
  C9. When the calling thread is the finalizing thread, the slow-path lock of the recursive
  mutex only increments \<open>recursions\<close> and returns: the word \<open>v\<close> is the one before the
  call, whoever owns the lock and whatever the other threads do.
\<close>

theorem lock_slow_finalizing_thread:
  "finalizing = tstate \<Longrightarrow>
   PyRecursiveMutex_lock_slow tid tstate finalizing env m
     = Returned (m\<lparr>recursions := recursions m + 1\<rparr>)
   \<and> v (m\<lparr>recursions := recursions m + 1\<rparr>) = v m"
  by (simp add: PyRecursiveMutex_lock_slow_def)

text \<open>
  The witness: thread \<open>0x7000\<close> with state \<open>0x5000\<close> is finalizing; the mutex is held by
  thread \<open>0x9000\<close> with a parked waiter (word \<open>0x9003\<close>).
\<close>

theorem lock_slow_finalizing_thread_witness:
  "PyRecursiveMutex_lock_slow 0x7000 0x5000 0x5000 [ParkReturns True False 0]
       \<lparr>v = 0x9003, recursions = 0\<rparr>
     = Returned \<lparr>v = 0x9003, recursions = 1\<rparr>"
  using lock_slow_finalizing_thread [of "0x5000" "0x5000" "0x7000" "[ParkReturns True False 0]"
      "\<lparr>v = 0x9003, recursions = 0\<rparr>"]
  by simp

text \<open>
  C10. Notifying the parking-lot event when it is LOCKED (notified) already returns with
  the word still LOCKED and wakes nobody; the same notification of a raw event is fatal.
\<close>

theorem event_notify_duplicate_noop:
  "PyEvent_Notify LOCKED = (LOCKED, False)
   \<and> PyRawEvent_Notify LOCKED = Inl (Py_FatalError ''_PyRawEvent: duplicate notifications'')"
  by (simp add: PyEvent_Notify_def PyRawEvent_Notify_def LOCKED_def UNLOCKED_def)

section \<open>Properties of the object header\<close>

lemma bit_TRACKED [simp]: "bit PyGC_PREV_MASK_TRACKED n \<longleftrightarrow> n = 0"
  by (simp add: PyGC_PREV_MASK_TRACKED_def bit_simps)

lemma bit_FINALIZED [simp]: "bit PyGC_PREV_MASK_FINALIZED n \<longleftrightarrow> n = 1"
proof -
  have "bit (push_bit 1 (1 :: uintptr)) n \<longleftrightarrow> n = 1"
    unfolding bit_push_bit_iff bit_1_iff by auto
  then show ?thesis by (simp add: PyGC_PREV_MASK_FINALIZED_def)
qed

lemma bit_UNREACHABLE [simp]: "bit PyGC_PREV_MASK_UNREACHABLE n \<longleftrightarrow> n = 2"
proof -
  have "bit (push_bit 2 (1 :: uintptr)) n \<longleftrightarrow> n = 2"
    unfolding bit_push_bit_iff bit_1_iff by auto
  then show ?thesis by (simp add: PyGC_PREV_MASK_UNREACHABLE_def)
qed

lemma bit_PREV_MASK [simp]: "bit PyGC_PREV_MASK n \<longleftrightarrow> 3 \<le> n \<and> n < 64"
  by (auto simp: PyGC_PREV_MASK_def PyGC_PREV_SHIFT_def bit_simps)

lemma flag_tests:
  "gc_is_unreachable p \<longleftrightarrow> bit p 2"
  "PyGC_TRACKED p \<longleftrightarrow> bit p 0"
  "PyGCHead_FINALIZED p \<longleftrightarrow> bit p 1"
proof -
  have "p AND 2 ^ 2 \<noteq> 0 \<longleftrightarrow> bit p 2" "p AND 2 ^ 0 \<noteq> 0 \<longleftrightarrow> bit p 0" "p AND 2 ^ 1 \<noteq> 0 \<longleftrightarrow> bit p 1"
    unfolding and_exp_eq_0_iff_not_bit by simp_all
  then show "gc_is_unreachable p \<longleftrightarrow> bit p 2" "PyGC_TRACKED p \<longleftrightarrow> bit p 0"
    "PyGCHead_FINALIZED p \<longleftrightarrow> bit p 1"
    by (simp_all add: gc_is_unreachable_def PyGC_TRACKED_def PyGCHead_FINALIZED_def
        PyGC_PREV_MASK_UNREACHABLE_def PyGC_PREV_MASK_TRACKED_def PyGC_PREV_MASK_FINALIZED_def)
qed

lemma gc_get_refs_eqI:
  "(\<And>n. 3 \<le> n \<Longrightarrow> n < 64 \<Longrightarrow> bit p n = bit q n) \<Longrightarrow> gc_get_refs p = gc_get_refs q"
proof -
  assume a: "\<And>n. 3 \<le> n \<Longrightarrow> n < 64 \<Longrightarrow> bit p n = bit q n"
  have "signed_drop_bit PyGC_PREV_SHIFT p = signed_drop_bit PyGC_PREV_SHIFT q"
    by (rule bit_eqI) (auto simp: bit_signed_drop_bit_iff PyGC_PREV_SHIFT_def a)
  then show ?thesis by (simp add: gc_get_refs_def)
qed


subsection \<open>\<open>gc_list_clear\<close>\<close>

lemma gc_path_update:
  "x \<notin> set xs \<Longrightarrow> gc_path (h(x := c)) gc xs list = gc_path h gc xs list"
  by (induction xs arbitrary: gc) auto

lemma gc_list_clear_loop_path:
  "gc_path h gc xs list \<Longrightarrow> distinct xs \<Longrightarrow>
   gc_list_clear_loop keep list gc h =
     Some (\<lambda>a. if a \<in> set xs then \<lparr>gc_next = 0, gc_prev = gc_prev (h a) AND keep\<rparr> else h a)"
proof (induction xs arbitrary: gc h)
  case Nil
  then show ?case by (simp add: gc_list_clear_loop.simps)
next
  case (Cons x xs)
  let ?c = "\<lambda>g. \<lparr>gc_next = 0, gc_prev = gc_prev g AND keep\<rparr>"
  let ?h = "h(x := ?c (h x))"
  from Cons.prems have p: "gc_path ?h (gc_next (h x)) xs list" and d: "distinct xs" "x \<notin> set xs"
    and gx: "gc = x" "x \<noteq> list"
    by (simp_all add: gc_path_update)
  have "gc_list_clear_loop keep list gc h = gc_list_clear_loop keep list (gc_next (h x)) ?h"
    using gx by (subst gc_list_clear_loop.simps) simp
  also have "\<dots> = Some (\<lambda>a. if a \<in> set xs then ?c (?h a) else ?h a)"
    by (rule Cons.IH [OF p d(1)])
  also have "(\<lambda>a. if a \<in> set xs then ?c (?h a) else ?h a)
      = (\<lambda>a. if a \<in> set (x # xs) then ?c (h a) else h a)"
    using d by (auto simp: fun_eq_iff)
  finally show ?case .
qed

lemma gc_path_head_notin: "gc_path h gc xs list \<Longrightarrow> list \<notin> set xs"
  by (induction xs arbitrary: gc) auto


text \<open>
  The first body of \<open>gc_list_clear\<close> resets the pointer bits but keeps all three flags,
  UNREACHABLE among them.
\<close>

lemma gc_list_clear_first_keeps_unreachable:
  assumes "gc_list h list xs" "x \<in> set xs"
  shows "\<exists>h'. gc_list_clear_first list h = Some h' \<and> gc_next (h' x) = 0
    \<and> gc_prev (h' x) AND PyGC_PREV_MASK = 0
    \<and> gc_is_unreachable (gc_prev (h' x)) = gc_is_unreachable (gc_prev (h x))"
proof -
  from assms have p: "gc_path h (gc_next (h list)) xs list" and d: "distinct xs"
    by (simp_all add: gc_list_def)
  have n: "x \<noteq> list" using gc_path_head_notin [OF p] assms(2) by auto
  have m: "(p AND NOT PyGC_PREV_MASK) AND PyGC_PREV_MASK = 0" for p
    by (rule bit_eqI) (auto simp: bit_simps)
  show ?thesis
    using assms(2) n
    by (simp add: gc_list_clear_first_def gc_list_clear_loop_path [OF p d] gc_list_init_def m
        flag_tests bit_simps)
qed


section \<open>Properties of \<open>incref_merge\<close>\<close>

lemma shared_count_or_flag:
  fixes w :: "32 word"
  assumes "drop_bit s m = 0" "s < 32"
  shows "signed_drop_bit s (w OR m) = signed_drop_bit s w"
proof (rule bit_eqI)
  fix n
  assume "possible_bit TYPE(32 word) n"
  have nb: "\<not> bit m (s + k)" for k
  proof -
    have "bit (drop_bit s m) k = bit m (s + k)" by (simp add: bit_drop_bit_eq add.commute)
    then show ?thesis using assms(1) by simp
  qed
  have "\<not> bit m 31" using nb [of "31 - s"] assms(2) by simp
  then show "bit (signed_drop_bit s (w OR m)) n = bit (signed_drop_bit s w) n"
    using nb by (auto simp: bit_signed_drop_bit_iff bit_or_iff)
qed

lemma scaled_bounds:
  fixes P Q q r :: int
  assumes "0 < P" "0 \<le> r" "r < P" "- Q \<le> q" "q < Q"
  shows "- (P * Q) \<le> P * q + r" "P * q + r < P * Q"
proof -
  have "P * (- Q) \<le> P * q" using assms by (intro mult_left_mono) simp_all
  then show "- (P * Q) \<le> P * q + r" using assms by simp
  have "q + 1 \<le> Q" using assms by simp
  then have "P * (q + 1) \<le> P * Q" using assms by (intro mult_left_mono) simp_all
  then show "P * q + r < P * Q" using assms by (simp add: algebra_simps)
qed

lemma sint_add_push:
  fixes w :: "32 word"
  assumes "s < 32"
    and lo: "- (2 ^ (31 - s)) \<le> sint w div 2 ^ s + k" and hi: "sint w div 2 ^ s + k < 2 ^ (31 - s)"
  shows "sint (signed_drop_bit s (w + push_bit s (word_of_int k))) = sint w div 2 ^ s + k"
proof -
  have e: "(2::int) ^ 31 = 2 ^ s * 2 ^ (31 - s)"
    using assms(1) by (simp flip: power_add)
  have d: "sint w + 2 ^ s * k = 2 ^ s * (sint w div 2 ^ s + k) + sint w mod 2 ^ s"
    by (simp add: algebra_simps)
  have r: "- (2 ^ 31) \<le> sint w + 2 ^ s * k" "sint w + 2 ^ s * k < 2 ^ 31"
    unfolding e d using lo hi by (intro scaled_bounds; simp)+
  have "sint (w + push_bit s (word_of_int k)) = sint (word_of_int (sint w + 2 ^ s * k) :: 32 word)"
    by (simp add: push_bit_eq_mult mult.commute)
  also have "\<dots> = signed_take_bit 31 (sint w + 2 ^ s * k)"
    unfolding sint_sbintrunc' by simp
  also have "\<dots> = sint w + 2 ^ s * k"
    by (rule signed_take_bit_int_eq_self) (use r in simp_all)
  finally have "sint (w + push_bit s (word_of_int k)) = sint w + 2 ^ s * k" .
  then show ?thesis
    by (simp add: sint_signed_drop_bit_eq drop_bit_eq_div)
qed

lemma shared_count_lower:
  fixes w :: "32 word"
  assumes "s < 32"
  shows "- (2 ^ (31 - s)) \<le> sint w div 2 ^ s"
proof -
  have e: "(2::int) ^ 31 = 2 ^ (31 - s) * 2 ^ s"
    using assms by (simp flip: power_add)
  have c: "(- (2 ^ (31 - s)) * 2 ^ s) div 2 ^ s = - ((2::int) ^ (31 - s))"
    by (rule nonzero_mult_div_cancel_right) simp
  have "- (2 ^ 31) \<le> sint w" using sint_ge [of w] by simp
  then have "- (2 ^ (31 - s)) * 2 ^ s \<le> sint w" unfolding e by simp
  then have "(- (2 ^ (31 - s)) * 2 ^ s) div 2 ^ s \<le> sint w div 2 ^ s"
    by (rule zdiv_mono1) simp
  then show ?thesis unfolding c .
qed

text \<open>
  C3, as amended. \<open>incref_merge\<close> zeroes \<open>ob_ref_local\<close> and \<open>ob_tid\<close> and sets the merged
  flag; when the count after the call fits the count bits of \<open>ob_ref_shared\<close>, the logical
  reference count is one more than before. The layout is any one whose merged flag lies
  below the shared count. The object may be immortal or not: the assertion on it is a
  debug assertion.
\<close>

theorem incref_merge_adds_one:
  assumes "Py_REF_SHARED_SHIFT L < 32"
    and "drop_bit (Py_REF_SHARED_SHIFT L) (Py_REF_MERGED_MASK L) = 0"
    and "Py_GC_REFCNT L op + 1 < 2 ^ (31 - Py_REF_SHARED_SHIFT L)"
  shows "ob_ref_local (incref_merge L op) = 0
    \<and> ob_tid (incref_merge L op) = 0
    \<and> ob_ref_shared (incref_merge L op) AND Py_REF_MERGED_MASK L = Py_REF_MERGED_MASK L
    \<and> Py_GC_REFCNT L (incref_merge L op) = Py_GC_REFCNT L op + 1"
proof -
  let ?s = "Py_REF_SHARED_SHIFT L"
  let ?l = "fst (PyRef_UnpackLocal L (ob_ref_local op))"
  have sh: "PyRef_UnpackShared L w = sint w div 2 ^ ?s" for w
    by (simp add: PyRef_UnpackShared_def sint_signed_drop_bit_eq drop_bit_eq_div)
  have l0: "0 \<le> ?l" by (simp add: PyRef_UnpackLocal_def)
  have lo: "- (2 ^ (31 - ?s)) \<le> sint (ob_ref_shared op) div 2 ^ ?s + (?l + 1)"
    using shared_count_lower [OF assms(1), of "ob_ref_shared op"] l0 by simp
  have hi: "sint (ob_ref_shared op) div 2 ^ ?s + (?l + 1) < 2 ^ (31 - ?s)"
    using assms(3) by (simp add: Py_GC_REFCNT_def sh)
  have "PyRef_UnpackShared L (ob_ref_shared (incref_merge L op))
      = sint (signed_drop_bit ?s (ob_ref_shared op + push_bit ?s (word_of_int (?l + 1))))"
    by (simp add: incref_merge_def Let_def PyRef_UnpackShared_def
        shared_count_or_flag [OF assms(2,1)])
  also have "\<dots> = sint (ob_ref_shared op) div 2 ^ ?s + (?l + 1)"
    by (rule sint_add_push [OF assms(1) lo hi])
  finally have "Py_GC_REFCNT L (incref_merge L op) = Py_GC_REFCNT L op + 1"
    by (simp add: Py_GC_REFCNT_def sh incref_merge_def Let_def PyRef_UnpackLocal_def)
  moreover have "(x OR m) AND m = m" for x m :: "32 word"
    by (rule bit_eqI) (auto simp: bit_simps)
  ultimately show ?thesis
    by (simp add: incref_merge_def Let_def)
qed

text \<open>
  The witness: an object of thread \<open>0x7000\<close> with local count 3 and shared count 2 has
  shared count 6, the merged flag and no owner after the call.
\<close>

theorem incref_merge_adds_one_witness:
  "Py_REF_SHARED_SHIFT example_layout < 32
   \<and> drop_bit (Py_REF_SHARED_SHIFT example_layout) (Py_REF_MERGED_MASK example_layout) = 0
   \<and> Py_GC_REFCNT example_layout \<lparr>ob_tid = 0x7000, ob_ref_local = 12, ob_ref_shared = 8\<rparr> + 1
       < 2 ^ (31 - Py_REF_SHARED_SHIFT example_layout)
   \<and> incref_merge example_layout \<lparr>ob_tid = 0x7000, ob_ref_local = 12, ob_ref_shared = 8\<rparr>
     = \<lparr>ob_tid = 0, ob_ref_local = 0, ob_ref_shared = 25\<rparr>
   \<and> Py_GC_REFCNT example_layout \<lparr>ob_tid = 0x7000, ob_ref_local = 12, ob_ref_shared = 8\<rparr> = 5
   \<and> Py_GC_REFCNT example_layout
       (incref_merge example_layout \<lparr>ob_tid = 0x7000, ob_ref_local = 12, ob_ref_shared = 8\<rparr>) = 6"
proof -
  have h: "Py_REF_SHARED_SHIFT example_layout < 32"
    "drop_bit (Py_REF_SHARED_SHIFT example_layout) (Py_REF_MERGED_MASK example_layout) = 0"
    "Py_GC_REFCNT example_layout \<lparr>ob_tid = 0x7000, ob_ref_local = 12, ob_ref_shared = 8\<rparr> + 1
       < 2 ^ (31 - Py_REF_SHARED_SHIFT example_layout)"
    by (simp_all add: example_layout_def Py_GC_REFCNT_def PyRef_UnpackLocal_def
        PyRef_UnpackShared_def)
  have c: "Py_GC_REFCNT example_layout \<lparr>ob_tid = 0x7000, ob_ref_local = 12, ob_ref_shared = 8\<rparr> = 5"
    "incref_merge example_layout \<lparr>ob_tid = 0x7000, ob_ref_local = 12, ob_ref_shared = 8\<rparr>
      = \<lparr>ob_tid = 0, ob_ref_local = 0, ob_ref_shared = 25\<rparr>"
    by (simp_all add: example_layout_def incref_merge_def Py_GC_REFCNT_def PyRef_UnpackLocal_def
        PyRef_UnpackShared_def)
  from incref_merge_adds_one [OF h]
  have "Py_GC_REFCNT example_layout
      (incref_merge example_layout \<lparr>ob_tid = 0x7000, ob_ref_local = 12, ob_ref_shared = 8\<rparr>) = 6"
    unfolding c(1) by simp
  with h c show ?thesis by simp
qed

text \<open>
  The claim as stated, for every object that is not immortal, fails where the count does
  not fit: with local count \<open>2^30 - 1\<close> and shared count 0 the sum
  \<open>(local_refcount + 1) << 2\<close> is \<open>2^32\<close>, the 32-bit field keeps 0 of it, and the
  logical count falls from \<open>2^30 - 1\<close> to 0.
\<close>

theorem incref_merge_overflow_counterexample:
  "\<not> snd (PyRef_UnpackLocal example_layout 0xFFFFFFFC)
   \<and> Py_GC_REFCNT example_layout \<lparr>ob_tid = 0x7000, ob_ref_local = 0xFFFFFFFC, ob_ref_shared = 0\<rparr>
       = 1073741823
   \<and> Py_GC_REFCNT example_layout
       (incref_merge example_layout \<lparr>ob_tid = 0x7000, ob_ref_local = 0xFFFFFFFC, ob_ref_shared = 0\<rparr>)
       = 0"
  by (simp add: example_layout_def incref_merge_def Py_GC_REFCNT_def PyRef_UnpackLocal_def
      PyRef_UnpackShared_def)

section \<open>Properties of the threshold\<close>





lemma invoke_gc_callback_scale:
  "gc_scale (invoke_gc_callback cbs phase m n s) = gc_scale s"
proof -
  have "gc_scale (fold (\<lambda>cb. call_callback (cb phase m n)) cs t) = gc_scale t" for cs t
    by (induction cs arbitrary: t) (simp_all add: call_callback_def Let_def)
  then show ?thesis by (simp add: invoke_gc_callback_def split: option.splits)
qed




section \<open>Properties of \<open>collect\<close> and \<open>gc.collect\<close>\<close>

lemma call_callback_frame:
  "collecting (call_callback cb s) = collecting s"
  "cant_stop_wont_stop (call_callback cb s) = cant_stop_wont_stop s"
  "stoptheworld_mutex (call_callback cb s) = stoptheworld_mutex s"
  "stop_the_world (call_callback cb s) = stop_the_world s"
  by (simp_all add: call_callback_def Let_def)

lemma invoke_gc_callback_frame:
  "collecting (invoke_gc_callback cbs phase m n s) = collecting s
   \<and> cant_stop_wont_stop (invoke_gc_callback cbs phase m n s) = cant_stop_wont_stop s
   \<and> stoptheworld_mutex (invoke_gc_callback cbs phase m n s) = stoptheworld_mutex s
   \<and> stop_the_world (invoke_gc_callback cbs phase m n s) = stop_the_world s"
proof (cases cbs)
  case None
  then show ?thesis by (simp add: invoke_gc_callback_def)
next
  case (Some cs)
  have "collecting (fold (\<lambda>cb. call_callback (cb phase m n)) cs s) = collecting s
      \<and> cant_stop_wont_stop (fold (\<lambda>cb. call_callback (cb phase m n)) cs s) = cant_stop_wont_stop s
      \<and> stoptheworld_mutex (fold (\<lambda>cb. call_callback (cb phase m n)) cs s) = stoptheworld_mutex s
      \<and> stop_the_world (fold (\<lambda>cb. call_callback (cb phase m n)) cs s) = stop_the_world s"
    by (induction cs arbitrary: s) (simp_all add: call_callback_frame)
  with Some show ?thesis by (simp add: invoke_gc_callback_def)
qed

text \<open>
  Whatever the callbacks do, a call of \<open>collect\<close> that gets past its first tests with a
  valid reason returns 0 from the compare-and-swap, which finds the 1 that \<open>collect\<close> has
  just stored in \<open>collecting\<close>. It returns with the mutex held, the world stopped and
  \<open>collecting\<close> set, and no collection has run.
\<close>

lemma collect_returns_at_cas:
  assumes "collecting s = 0" "cant_stop_wont_stop s = 0" "\<not> stoptheworld_mutex s"
    and "gc_reason_is_valid s reason"
  shows "\<exists>s'. collect cbs reason s = Returns 0 s' \<and> stoptheworld_mutex s'
    \<and> stop_the_world s' \<and> collecting s' = 1 \<and> stats s' = stats s"
proof -
  let ?s3 = "s\<lparr>stoptheworld_mutex := True, stop_the_world := True, collecting := 1\<rparr>"
  let ?s4 = "if reason \<noteq> GC_REASON_SHUTDOWN then invoke_gc_callback cbs ''start'' 0 0 ?s3 else ?s3"
  have v: "gc_reason_is_valid (s\<lparr>stoptheworld_mutex := True\<rparr>) reason"
    using assms(4) by (auto simp: gc_reason_is_valid_def PyGC_ShouldCollect_def split: if_splits)
  have f: "collecting ?s4 = 1" "cant_stop_wont_stop ?s4 = 0" "stoptheworld_mutex ?s4"
    "stop_the_world ?s4"
    using assms invoke_gc_callback_frame [of cbs "''start''" 0 0 ?s3] by simp_all
  have st: "stats ?s4 = stats s"
  proof -
    have fs: "stats (fold (\<lambda>cb. call_callback (cb ph m n)) cs t) = stats t" for ph m n cs t
      by (induction cs arbitrary: t) (simp_all add: call_callback_def Let_def)
    show ?thesis by (simp add: invoke_gc_callback_def fs split: option.splits)
  qed
  have "collect cbs reason s = Returns 0 ?s4"
    using assms(1-3) v f by (simp add: collect_def Let_def)
  with f st show ?thesis by simp
qed

text \<open>
  C2, evaluated at the failing input: the first \<open>gc.collect()\<close> of a fresh runtime, with no
  callbacks. \<open>collect\<close> returns 0 at the compare-and-swap of \<open>collecting\<close> and leaves the
  stop-the-world mutex locked and the world stopped.
\<close>

theorem collect_cas_return_keeps_mutex:
  "collect None GC_REASON_MANUAL PyGC_InitState
     = Returns 0 (PyGC_InitState\<lparr>stoptheworld_mutex := True, stop_the_world := True, collecting := 1\<rparr>)"
  by (simp add: collect_def PyGC_InitState_def gc_reason_is_valid_def invoke_gc_callback_def)

text \<open>
  The three tests the claim names do hold at the entry of \<open>collect\<close>: each returns 0 and
  leaves the state, the mutex and the world with it, as it was.
\<close>

lemma collect_entry_tests:
  "collecting s \<noteq> 0 \<or> cant_stop_wont_stop s \<noteq> 0 \<Longrightarrow> collect cbs reason s = Returns 0 s"
  "\<not> stoptheworld_mutex s \<Longrightarrow> \<not> PyGC_ShouldCollect s \<Longrightarrow>
     collect cbs GC_REASON_HEAP s = Returns 0 s"
  by (auto simp: collect_def Let_def gc_reason_is_valid_def PyGC_ShouldCollect_def)

text \<open>
  C6, as amended. \<open>gc.collect(generation)\<close> with a generation below 0 or from 3 on fails
  with ValueError and leaves the state as it was. With a generation 0, 1 or 2 it returns
  what \<open>collect(tstate, GC_REASON_MANUAL)\<close> returns, which is 0, with the state as it was,
  while a collection is running or the thread's \<open>cant_stop_wont_stop\<close> is set.
\<close>

theorem gc_collect_impl_generation:
  "(generation < 0 \<or> 3 \<le> generation \<longrightarrow>
      gc_collect_impl cbs generation s = Returns (Inl (ValueError ''invalid generation'')) s)
   \<and> (0 \<le> generation \<and> generation < 3 \<longrightarrow>
      gc_collect_impl cbs generation s
        = (case collect cbs GC_REASON_MANUAL s of
             Returns n s' \<Rightarrow> Returns (Inr n) s' | Blocks s' \<Rightarrow> Blocks s'))
   \<and> (0 \<le> generation \<and> generation < 3 \<and> (collecting s \<noteq> 0 \<or> cant_stop_wont_stop s \<noteq> 0) \<longrightarrow>
      gc_collect_impl cbs generation s = Returns (Inr 0) s)"
  using collect_entry_tests(1) [of s cbs GC_REASON_MANUAL]
  by (auto simp: gc_collect_impl_def)

text \<open>
  The witness: generation 3 and generation \<open>-1\<close> are refused on the fresh state;
  generation 1 in a thread whose \<open>cant_stop_wont_stop\<close> is set returns 0.
\<close>

theorem gc_collect_impl_generation_witness:
  "gc_collect_impl None 3 PyGC_InitState
     = Returns (Inl (ValueError ''invalid generation'')) PyGC_InitState
   \<and> gc_collect_impl None (- 1) PyGC_InitState
     = Returns (Inl (ValueError ''invalid generation'')) PyGC_InitState
   \<and> gc_collect_impl None 1 (PyGC_InitState\<lparr>cant_stop_wont_stop := 1\<rparr>)
     = Returns (Inr 0) (PyGC_InitState\<lparr>cant_stop_wont_stop := 1\<rparr>)"
  using gc_collect_impl_generation [of 3 None PyGC_InitState]
    gc_collect_impl_generation [of "- 1" None PyGC_InitState]
    gc_collect_impl_generation [of 1 None "PyGC_InitState\<lparr>cant_stop_wont_stop := 1\<rparr>"]
  by (simp add: collect_def PyGC_InitState_def)

text \<open>
  The claim as stated fails for a valid generation: \<open>gc.collect(2)\<close>, called while a
  collection is running, returns 0 and runs no collection; the state, its counter of
  collections included, is the one before the call.
\<close>

theorem gc_collect_impl_busy_counterexample:
  "gc_collect_impl None 2 (PyGC_InitState\<lparr>collecting := 1\<rparr>)
     = Returns (Inr 0) (PyGC_InitState\<lparr>collecting := 1\<rparr>)"
  by (simp add: gc_collect_impl_def collect_def)

section \<open>Properties of \<open>finalize_garbage\<close>\<close>

lemma take_bit_add_shifted:
  "take_bit 3 (p + push_bit 3 w) = take_bit 3 (p :: uintptr)"
proof -
  have z: "take_bit 3 (uint (push_bit 3 w)) = 0"
    unfolding unsigned_take_bit_eq [symmetric] by (simp add: take_bit_push_bit)
  have tt: "take_bit 3 (take_bit 64 x) = take_bit 3 x" for x :: int
    by simp
  have "uint (take_bit 3 (p + push_bit 3 w)) = take_bit 3 (uint (p + push_bit 3 w))"
    by (rule unsigned_take_bit_eq)
  also have "\<dots> = take_bit 3 (take_bit 64 (uint p + uint (push_bit 3 w)))"
    by (simp only: uint_word_ariths take_bit_eq_mod) simp
  also have "\<dots> = take_bit 3 (uint p + uint (push_bit 3 w))"
    by (rule tt)
  also have "\<dots> = take_bit 3 (take_bit 3 (uint p) + take_bit 3 (uint (push_bit 3 w)))"
    by (rule take_bit_add [symmetric])
  also have "\<dots> = take_bit 3 (uint p)"
    unfolding z by simp
  also have "\<dots> = uint (take_bit 3 p)"
    by (rule unsigned_take_bit_eq [symmetric])
  finally show ?thesis by (simp only: word_uint_eq_iff)
qed

lemma low_bits_add:
  fixes p w :: uintptr
  assumes "n < 3"
  shows "bit (p + push_bit 3 w) n = bit p n" "bit (p - push_bit 3 w) n = bit p n"
proof -
  have "bit (take_bit 3 (p + push_bit 3 w)) n = bit (take_bit 3 p) n"
    by (simp only: take_bit_add_shifted)
  then show "bit (p + push_bit 3 w) n = bit p n" using assms by (simp add: bit_take_bit_iff)
  have "take_bit 3 ((p - push_bit 3 w) + push_bit 3 w) = take_bit 3 (p - push_bit 3 w)"
    by (rule take_bit_add_shifted)
  then have "bit (take_bit 3 (p - push_bit 3 w)) n = bit (take_bit 3 p) n" by simp
  then show "bit (p - push_bit 3 w) n = bit p n" using assms by (simp add: bit_take_bit_iff)
qed

lemma flags_kept_arith:
  "n < 3 \<Longrightarrow> bit (gc_add_refs p r) n = bit p n"
  "n < 3 \<Longrightarrow> bit (gc_decref p) n = bit p n"
  unfolding gc_add_refs_def gc_decref_def PyGC_PREV_SHIFT_def
  by (rule low_bits_add; assumption)+

lemma finalized_kept:
  "PyGCHead_FINALIZED (gc_set_refs p r) = PyGCHead_FINALIZED p"
  "PyGCHead_FINALIZED (gc_add_refs p r) = PyGCHead_FINALIZED p"
  "PyGCHead_FINALIZED (gc_decref p) = PyGCHead_FINALIZED p"
  "PyGCHead_FINALIZED (gc_set_unreachable p) = PyGCHead_FINALIZED p"
  "PyGCHead_FINALIZED (p AND NOT PyGC_PREV_MASK_UNREACHABLE) = PyGCHead_FINALIZED p"
  "PyGCHead_FINALIZED (PyGCHead_SET_PREV p (ptr AND PyGC_PREV_MASK)) = PyGCHead_FINALIZED p"
  "PyGCHead_FINALIZED (p AND (GC_TRACKED_MASK OR GC_FINALIZED_MASK)) = PyGCHead_FINALIZED p"
  "PyGCHead_FINALIZED (p AND NOT PyGC_PREV_MASK) = PyGCHead_FINALIZED p"
  "PyGCHead_FINALIZED ((p AND NOT PyGC_PREV_MASK_TRACKED) AND NOT PyGC_PREV_MASK_FINALIZED) = False"
  "PyGCHead_FINALIZED (PyGCHead_SET_FINALIZED p)"
  by (simp_all add: flag_tests flags_kept_arith gc_set_refs_def gc_set_unreachable_def
      PyGCHead_SET_PREV_def PyGCHead_SET_FINALIZED_def bit_simps PyGC_PREV_SHIFT_def)

lemma log_ok_finalize_garbage:
  "log_ok tp_finalize s \<Longrightarrow> log_ok tp_finalize (finalize_garbage tp_finalize collectable s)"
proof (induction collectable arbitrary: s)
  case Nil
  then show ?case by simp
next
  case (Cons gc collectable)
  let ?s' = "s\<lparr>prevs := (prevs s)(gc := PyGCHead_SET_FINALIZED (prevs s gc))\<rparr>"
  show ?case
  proof (cases "\<not> PyGCHead_FINALIZED (prevs s gc) \<and> tp_finalize gc \<noteq> None")
    case False
    then show ?thesis using Cons by (auto split: option.splits)
  next
    case True
    then obtain finalize where fz: "tp_finalize gc = Some finalize" by auto
    have fresh: "gc \<notin> fst ` set (finalizer_calls s)"
      using Cons.prems True by (auto simp: log_ok_def list_all_iff)
    have "log_ok tp_finalize (?s'\<lparr>world := finalize (world ?s'),
        finalizer_calls := finalizer_calls ?s' @ [(gc, prevs s gc, prevs ?s' gc)]\<rparr>)"
      using Cons.prems True fresh fz
      by (auto simp: log_ok_def list_all_iff finalized_kept)
    then show ?thesis using True fz Cons.IH by (simp add: Let_def)
  qed
qed

lemma log_ok_logged_finalized:
  assumes "log_ok tp_finalize s" "gc \<in> fst ` set (finalizer_calls s)"
  shows "PyGCHead_FINALIZED (prevs s gc) \<and> tp_finalize gc \<noteq> None"
proof -
  from assms(2) obtain tested called where "(gc, tested, called) \<in> set (finalizer_calls s)"
    by auto
  with assms(1) show ?thesis
    unfolding log_ok_def list_all_iff by blast
qed

lemma log_ok_prevs_update:
  assumes "log_ok tp_finalize s"
    and "gc \<in> fst ` set (finalizer_calls s) \<Longrightarrow> PyGCHead_FINALIZED p"
  shows "log_ok tp_finalize (s\<lparr>prevs := (prevs s)(gc := p)\<rparr>)"
proof -
  have "PyGCHead_FINALIZED (((prevs s)(gc := p)) g)"
    if "(g, tested, called) \<in> set (finalizer_calls s)" for g tested called
  proof (cases "g = gc")
    case True
    then have "gc \<in> fst ` set (finalizer_calls s)" using that by force
    then show ?thesis using assms(2) True by simp
  next
    case False
    then show ?thesis using assms(1) that unfolding log_ok_def list_all_iff by auto
  qed
  moreover have "\<not> PyGCHead_FINALIZED tested \<and> PyGCHead_FINALIZED called \<and> tp_finalize g \<noteq> None"
    if "(g, tested, called) \<in> set (finalizer_calls s)" for g tested called
    using assms(1) that unfolding log_ok_def list_all_iff by auto
  moreover have "distinct (map fst (finalizer_calls s))"
    using assms(1) by (simp add: log_ok_def)
  ultimately show ?thesis
    unfolding log_ok_def list_all_iff by auto
qed

lemma log_ok_gc_step:
  assumes "\<forall>gc. exact gc \<longrightarrow> tp_finalize gc = None" "log_ok tp_finalize s"
  shows "log_ok tp_finalize (gc_step tp_finalize exact st s)"
proof -
  have keep: "log_ok tp_finalize (s\<lparr>prevs := (prevs s)(gc := p)\<rparr>)"
    if "PyGCHead_FINALIZED p = PyGCHead_FINALIZED (prevs s gc)" for gc p
  proof (rule log_ok_prevs_update [OF assms(2)])
    assume "gc \<in> fst ` set (finalizer_calls s)"
    then show "PyGCHead_FINALIZED p"
      using log_ok_logged_finalized [OF assms(2)] that by simp
  qed
  show ?thesis
  proof (cases st)
    case (Finalize_garbage collectable)
    then show ?thesis using assms(2) by (simp add: log_ok_finalize_garbage)
  next
    case (Untrack_exact gc)
    show ?thesis
    proof (cases "exact gc")
      case True
      then have "gc \<notin> fst ` set (finalizer_calls s)"
        using assms(1) log_ok_logged_finalized [OF assms(2), of gc] by auto
      then have "log_ok tp_finalize (s\<lparr>prevs := (prevs s)(gc := p)\<rparr>)" for p
        by (intro log_ok_prevs_update [OF assms(2)]) simp
      then show ?thesis using Untrack_exact True by simp
    next
      case False
      then show ?thesis using Untrack_exact assms(2) by simp
    qed
  qed (simp_all add: keep finalized_kept)
qed

lemma log_ok_gc_steps:
  assumes "\<forall>gc. exact gc \<longrightarrow> tp_finalize gc = None"
  shows "log_ok tp_finalize s \<Longrightarrow> log_ok tp_finalize (gc_steps tp_finalize exact steps s)"
  unfolding gc_steps_def
  by (induction steps arbitrary: s) (simp_all add: log_ok_gc_step [OF assms])

text \<open>
  C5. Let the collector run any sequence of its header operations and runs of
  \<open>finalize_garbage\<close> over any lists, starting before the first finalizer was called. Then
  every call of \<open>tp_finalize\<close> was made on an object whose FINALIZED bit was clear when
  tested and set at the call, and no object's finalizer was called twice. The exact tuples
  and dicts that \<open>update_refs\<close> untracks have no \<open>tp_finalize\<close>.
\<close>

theorem finalizer_called_at_most_once:
  assumes "\<forall>gc. exact gc \<longrightarrow> tp_finalize gc = None"
    and "finalizer_calls s = []"
  shows "distinct (map fst (finalizer_calls (gc_steps tp_finalize exact steps s)))
    \<and> (\<forall>(gc, tested, called) \<in> set (finalizer_calls (gc_steps tp_finalize exact steps s)).
          \<not> PyGCHead_FINALIZED tested \<and> PyGCHead_FINALIZED called
          \<and> called = PyGCHead_SET_FINALIZED tested)"
proof -
  have "log_ok tp_finalize s" using assms(2) by (simp add: log_ok_def)
  then have ok: "log_ok tp_finalize (gc_steps tp_finalize exact steps s)"
    by (rule log_ok_gc_steps [OF assms(1)])
  have set_fin: "list_all (\<lambda>(gc, tested, called). called = PyGCHead_SET_FINALIZED tested)
      (finalizer_calls (finalize_garbage tp_finalize cs t))"
    if "list_all (\<lambda>(gc, tested, called). called = PyGCHead_SET_FINALIZED tested) (finalizer_calls t)"
    for cs and t :: "'a fin_state"
    using that by (induction cs arbitrary: t) (auto simp: Let_def split: option.splits)
  have step: "list_all (\<lambda>(gc, tested, called). called = PyGCHead_SET_FINALIZED tested)
      (finalizer_calls (gc_step tp_finalize exact st t))"
    if "list_all (\<lambda>(gc, tested, called). called = PyGCHead_SET_FINALIZED tested) (finalizer_calls t)"
    for st and t :: "'a fin_state"
    using that set_fin by (cases st) simp_all
  have "list_all (\<lambda>(gc, tested, called). called = PyGCHead_SET_FINALIZED tested)
      (finalizer_calls (fold (gc_step tp_finalize exact) steps t))"
    if "list_all (\<lambda>(gc, tested, called). called = PyGCHead_SET_FINALIZED tested) (finalizer_calls t)"
    for t :: "'a fin_state"
    using that by (induction steps arbitrary: t) (simp_all add: step)
  from this [of s] have "list_all (\<lambda>(gc, tested, called). called = PyGCHead_SET_FINALIZED tested)
      (finalizer_calls (gc_steps tp_finalize exact steps s))"
    using assms(2) by (simp add: gc_steps_def)
  with ok show ?thesis
    by (fastforce simp: log_ok_def list_all_iff)
qed

text \<open>
  The witness: the objects \<open>0x200\<close> and \<open>0x300\<close> have a finalizer, which counts its
  calls in \<open>world\<close>; \<open>0x400\<close> is an exact tuple. The first run of \<open>finalize_garbage\<close>
  meets \<open>0x200\<close> twice; later \<open>0x200\<close> has its \<open>gc_refs\<close> set and is cleared from a list,
  \<open>0x400\<close> is untracked, and a second run meets \<open>0x200\<close> again. Each finalizer has run
  once.
\<close>

theorem finalizer_called_at_most_once_witness:
  "example_tp_finalize 0x400 = None
   \<and> finalizer_calls (gc_steps example_tp_finalize (\<lambda>gc. gc = 0x400) example_steps
       \<lparr>prevs = \<lambda>gc. 1, world = 0, finalizer_calls = []\<rparr>)
     = [(0x200, 1, 3), (0x300, 1, 3)]
   \<and> world (gc_steps example_tp_finalize (\<lambda>gc. gc = 0x400) example_steps
       \<lparr>prevs = \<lambda>gc. 1, world = 0, finalizer_calls = []\<rparr>) = 2"
proof -
  have h: "\<forall>gc. gc = 0x400 \<longrightarrow> example_tp_finalize gc = None"
    "finalizer_calls \<lparr>prevs = \<lambda>gc. 1, world = 0 :: nat, finalizer_calls = []\<rparr> = []"
    by (simp_all add: example_tp_finalize_def)
  note t = finalizer_called_at_most_once [where exact = "\<lambda>gc. gc = 0x400"
      and tp_finalize = example_tp_finalize and steps = example_steps, OF h]
  have "finalizer_calls (gc_steps example_tp_finalize (\<lambda>gc. gc = 0x400) example_steps
       \<lparr>prevs = \<lambda>gc. 1, world = 0, finalizer_calls = []\<rparr>)
     = [(0x200, 1, 3), (0x300, 1, 3)]
   \<and> world (gc_steps example_tp_finalize (\<lambda>gc. gc = 0x400) example_steps
       \<lparr>prevs = \<lambda>gc. 1, world = 0, finalizer_calls = []\<rparr>) = 2"
    by (simp add: example_tp_finalize_def example_steps_def gc_steps_def Let_def
        PyGCHead_FINALIZED_def PyGCHead_SET_FINALIZED_def gc_set_refs_def
        PyGC_PREV_MASK_FINALIZED_def PyGC_PREV_MASK_TRACKED_def PyGC_PREV_MASK_def
        PyGC_PREV_SHIFT_def mask_eq_exp_minus_1)
  with t h(1) show ?thesis by simp
qed

section \<open>Properties of the search for unreachable objects\<close>

subsection \<open>\<open>gc_refs\<close> and back pointers in one word\<close>

lemma valid_low_bits: "valid_gc_ptr a \<Longrightarrow> n < 3 \<Longrightarrow> \<not> bit a n"
proof -
  assume v: "valid_gc_ptr a" and n: "n < 3"
  have "bit (a AND NOT PyGC_PREV_MASK) n = bit a n" using n by (simp add: bit_simps)
  then show ?thesis using v by (simp add: valid_gc_ptr_def)
qed

lemma refs_set_refs_1 [simp]: "gc_get_refs (gc_set_refs p 1) = 1"
proof -
  have "signed_drop_bit PyGC_PREV_SHIFT (gc_set_refs p 1) = signed_drop_bit PyGC_PREV_SHIFT (push_bit 3 1)"
    by (rule bit_eqI)
      (auto simp: gc_set_refs_def bit_signed_drop_bit_iff PyGC_PREV_SHIFT_def bit_or_iff bit_and_iff
        bit_not_iff simp del: push_bit_of_1)
  also have "\<dots> = 1" by (simp add: PyGC_PREV_SHIFT_def)
  finally show ?thesis by (simp add: gc_get_refs_def)
qed

lemma unreachable_set_refs [simp]: "gc_is_unreachable (gc_set_refs p r) = gc_is_unreachable p"
  by (simp add: flag_tests gc_set_refs_def bit_simps PyGC_PREV_SHIFT_def)

lemma refs_SET_PREV: "gc_get_refs (PyGCHead_SET_PREV p a) = gc_get_refs a"
  by (rule gc_get_refs_eqI) (simp add: PyGCHead_SET_PREV_def bit_simps)

lemma unreachable_SET_PREV:
  "valid_gc_ptr a \<Longrightarrow> gc_is_unreachable (PyGCHead_SET_PREV p a) = gc_is_unreachable p"
  using valid_low_bits [of a 2] by (simp add: flag_tests PyGCHead_SET_PREV_def bit_simps)

lemma refs_set_unreachable [simp]: "gc_get_refs (gc_set_unreachable p) = gc_get_refs p"
  by (rule gc_get_refs_eqI) (simp add: gc_set_unreachable_def bit_simps)

lemma unreachable_set_unreachable [simp]: "gc_is_unreachable (gc_set_unreachable p)"
  by (simp add: flag_tests gc_set_unreachable_def bit_simps)

lemma refs_clear_unreachable [simp]:
  "gc_get_refs (p AND NOT PyGC_PREV_MASK_UNREACHABLE) = gc_get_refs p"
  by (rule gc_get_refs_eqI) (simp add: bit_simps)

lemma unreachable_clear_unreachable [simp]:
  "\<not> gc_is_unreachable (p AND NOT PyGC_PREV_MASK_UNREACHABLE)"
  by (simp add: flag_tests bit_simps)

text \<open>
  Reading \<open>gc_refs\<close> back: a header that holds only flags, with \<open>n\<close> added by
  \<open>gc_add_refs\<close>, has \<open>gc_refs = n\<close> when \<open>n\<close> fits the 61 bits above the flags.
\<close>

lemma flags_only_uint:
  fixes f :: uintptr
  assumes "f AND PyGC_PREV_MASK = 0"
  shows "uint f < 8"
proof -
  have nb: "\<not> bit f n" if "3 \<le> n" for n
  proof (cases "n < 64")
    case True
    have "bit (f AND PyGC_PREV_MASK) n = bit f n" using that True by (simp add: bit_and_iff)
    then show ?thesis using assms by simp
  next
    case False
    then show ?thesis using bit_imp_le_length [of f n] by auto
  qed
  have "take_bit 3 f = f"
  proof (rule bit_eqI)
    fix n
    show "bit (take_bit 3 f) n = bit f n"
      using nb [of n] by (cases "n < 3") (simp_all add: bit_take_bit_iff)
  qed
  then have "uint f = take_bit 3 (uint f)"
    by (metis unsigned_take_bit_eq)
  also have "\<dots> < 2 ^ 3" by (rule take_bit_int_less_exp)
  finally show ?thesis by simp
qed

lemma gc_get_refs_add_refs:
  assumes f: "f AND PyGC_PREV_MASK = 0" and lo: "- (2 ^ 60) \<le> n" and hi: "n < 2 ^ 60"
  shows "gc_get_refs (gc_add_refs f n) = n"
proof -
  have u: "0 \<le> uint f" "uint f < 8" using flags_only_uint [OF f] by simp_all
  have "- (8 * 2 ^ 60) \<le> 8 * n + uint f" "8 * n + uint f < 8 * 2 ^ 60"
    using u lo hi by (intro scaled_bounds; simp)+
  then have r: "- (2 ^ 63) \<le> uint f + 8 * n" "uint f + 8 * n < 2 ^ 63"
    by simp_all
  have "gc_add_refs f n = word_of_int (uint f + 8 * n)"
    by (simp add: gc_add_refs_def PyGC_PREV_SHIFT_def push_bit_eq_mult mult.commute)
  then have "sint (gc_add_refs f n) = sint (word_of_int (uint f + 8 * n) :: uintptr)"
    by (rule arg_cong)
  also have "\<dots> = signed_take_bit 63 (uint f + 8 * n)"
    unfolding sint_sbintrunc' by simp
  also have "\<dots> = uint f + 8 * n"
    by (rule signed_take_bit_int_eq_self) (use r in simp_all)
  finally have s: "sint (gc_add_refs f n) = uint f + 8 * n" .
  have "gc_get_refs (gc_add_refs f n) = (uint f + 8 * n) div 8"
    by (simp add: gc_get_refs_def PyGC_PREV_SHIFT_def sint_signed_drop_bit_eq drop_bit_eq_div s)
  also have "\<dots> = n" using u by simp
  finally show ?thesis .
qed

subsection \<open>The refcount-subtraction pass\<close>

lemma gc_add_refs_add: "gc_add_refs (gc_add_refs p m) n = gc_add_refs p (m + n)"
  by (simp add: gc_add_refs_def push_bit_eq_mult algebra_simps)

lemma gc_decref_as_add: "gc_decref p = gc_add_refs p (- 1)"
  by (simp add: gc_add_refs_def gc_decref_def push_bit_eq_mult)

lemma gc_add_refs_0 [simp]: "gc_add_refs p 0 = p"
  by (simp add: gc_add_refs_def)

lemma tracked_add_refs [simp]: "PyGC_TRACKED (gc_add_refs p n) = PyGC_TRACKED p"
  by (simp add: flag_tests flags_kept_arith)

lemma unreachable_add_refs [simp]: "gc_is_unreachable (gc_add_refs p n) = gc_is_unreachable p"
  by (simp add: flag_tests flags_kept_arith)

text \<open>
  A call of \<open>tp_traverse\<close> with \<open>visit_decref\<close> subtracts from every tracked collectable
  object the number of times the call visits it; \<open>visit_incref\<close> adds it.
\<close>

lemma fold_visit_decref:
  "fold (visit_decref H) ys p a =
     (if PyObject_IS_GC H a \<and> PyGC_TRACKED (p a)
      then gc_add_refs (p a) (- int (count_list ys a)) else p a)"
proof (induction ys arbitrary: p)
  case Nil
  show ?case by simp
next
  case (Cons y ys)
  have t: "PyGC_TRACKED (visit_decref H y p a) = PyGC_TRACKED (p a)"
    by (simp add: visit_decref_def gc_decref_as_add)
  show ?case
    unfolding fold_Cons comp_apply Cons.IH t
    by (auto simp: visit_decref_def gc_decref_as_add gc_add_refs_add)
qed

lemma fold_visit_incref:
  "fold (visit_incref H) ys p a =
     (if PyObject_IS_GC H a \<and> PyGC_TRACKED (p a)
      then gc_add_refs (p a) (int (count_list ys a)) else p a)"
proof (induction ys arbitrary: p)
  case Nil
  show ?case by simp
next
  case (Cons y ys)
  have t: "PyGC_TRACKED (visit_incref H y p a) = PyGC_TRACKED (p a)"
    by (simp add: visit_incref_def)
  show ?case
    unfolding fold_Cons comp_apply Cons.IH t
    by (auto simp: visit_incref_def gc_add_refs_add)
qed

lemma visit_heap_snoc:
  "visit_heap f (bs @ [b]) st =
     (let st' = visit_heap f bs st in if PyGC_TRACKED (fst st' b) then f b st' else st')"
  by (simp add: visit_heap_def Let_def)

lemma internal_refs_snoc:
  "internal_refs H (ws @ [b]) a = internal_refs H ws a + int (count_list (tp_traverse H b) a)"
  by (simp add: internal_refs_def)

text \<open>
  The walk keeps the invariant of the pass block by block. The blocks are distinct, so the
  walk meets each of them once.
\<close>

lemma pass_inv_visit_heap:
  "distinct bs \<Longrightarrow> pass_inv H q bs (visit_heap (update_refs H) bs (q, []))"
proof (induction bs rule: rev_induct)
  case Nil
  show ?case by (simp add: pass_inv_def visit_heap_def working_set_def internal_refs_def)
next
  case (snoc b bs)
  then have d: "distinct bs" "b \<notin> set bs" by simp_all
  obtain p l where st: "visit_heap (update_refs H) bs (q, []) = (p, l)" by (cases "visit_heap (update_refs H) bs (q, [])")
  from snoc.IH [OF d(1)] have inv: "pass_inv H q bs (p, l)" unfolding st .
  then have l: "l = working_set H q bs"
    and tr: "\<And>a. \<not> (a \<in> set bs \<and> maybe_untracked H a) \<Longrightarrow> PyGC_TRACKED (p a) = PyGC_TRACKED (q a)"
    and cnt: "\<And>a. PyGC_TRACKED (q a) \<Longrightarrow> \<not> maybe_untracked H a \<Longrightarrow> PyObject_IS_GC H a \<Longrightarrow>
         p a = gc_add_refs (q a)
           ((if a \<in> set bs then refcount H a else 0) - internal_refs H (working_set H q bs) a)"
    by (simp_all add: pass_inv_def)
  have tb: "PyGC_TRACKED (p b) = PyGC_TRACKED (q b)" using tr [of b] d(2) by simp
  show ?case
  proof (cases "PyGC_TRACKED (q b)")
    case False
    then have e: "visit_heap (update_refs H) (bs @ [b]) (q, []) = (p, l)"
      by (simp add: visit_heap_snoc st tb)
    have w: "working_set H q (bs @ [b]) = working_set H q bs"
      using False by (simp add: working_set_def)
    show ?thesis unfolding e pass_inv_def w
    proof (intro conjI allI impI)
      show "snd (p, l) = working_set H q bs" using l by simp
    next
      fix a assume "\<not> (a \<in> set (bs @ [b]) \<and> maybe_untracked H a)"
      then show "PyGC_TRACKED (fst (p, l) a) = PyGC_TRACKED (q a)"
        using tr [of a] by auto
    next
      fix a assume a: "PyGC_TRACKED (q a) \<and> \<not> maybe_untracked H a \<and> PyObject_IS_GC H a"
      then have "a \<noteq> b" using False by auto
      then show "fst (p, l) a = gc_add_refs (q a)
           ((if a \<in> set (bs @ [b]) then refcount H a else 0) - internal_refs H (working_set H q bs) a)"
        using cnt [of a] a by simp
    qed
  next
    case True
    show ?thesis
    proof (cases "maybe_untracked H b")
      case mu: True
      define p' where "p' = p(b := (p b AND NOT PyGC_PREV_MASK_TRACKED) AND NOT PyGC_PREV_MASK_FINALIZED)"
      have e: "visit_heap (update_refs H) (bs @ [b]) (q, []) = (p', l)"
        using True mu by (simp add: visit_heap_snoc st tb update_refs_def p'_def)
      have w: "working_set H q (bs @ [b]) = working_set H q bs"
        using mu by (simp add: working_set_def)
      show ?thesis unfolding e pass_inv_def w
      proof (intro conjI allI impI)
        show "snd (p', l) = working_set H q bs" using l by simp
      next
        fix a assume "\<not> (a \<in> set (bs @ [b]) \<and> maybe_untracked H a)"
        then have "a \<noteq> b" "\<not> (a \<in> set bs \<and> maybe_untracked H a)" using mu by auto
        then show "PyGC_TRACKED (fst (p', l) a) = PyGC_TRACKED (q a)"
          using tr [of a] by (simp add: p'_def)
      next
        fix a assume a: "PyGC_TRACKED (q a) \<and> \<not> maybe_untracked H a \<and> PyObject_IS_GC H a"
        then have "a \<noteq> b" using mu by auto
        then show "fst (p', l) a = gc_add_refs (q a)
             ((if a \<in> set (bs @ [b]) then refcount H a else 0) - internal_refs H (working_set H q bs) a)"
          using cnt [of a] a by (simp add: p'_def)
      qed
    next
      case mu: False
      define p1 where "p1 = p(b := gc_add_refs (p b) (refcount H b))"
      define p2 where "p2 = fold (visit_decref H) (tp_traverse H b) p1"
      have e: "visit_heap (update_refs H) (bs @ [b]) (q, []) = (p2, l @ [b])"
        using True mu by (simp add: visit_heap_snoc st tb update_refs_def p1_def p2_def Let_def)
      have w: "working_set H q (bs @ [b]) = working_set H q bs @ [b]"
        using True mu by (simp add: working_set_def)
      have t1: "PyGC_TRACKED (p1 a) = PyGC_TRACKED (p a)" for a
        by (simp add: p1_def)
      have p2a: "p2 a = (if PyObject_IS_GC H a \<and> PyGC_TRACKED (p a)
          then gc_add_refs (p1 a) (- int (count_list (tp_traverse H b) a)) else p1 a)" for a
        unfolding p2_def fold_visit_decref t1 ..
      have t2: "PyGC_TRACKED (p2 a) = PyGC_TRACKED (p a)" for a
        by (simp add: p2a t1)
      show ?thesis unfolding e pass_inv_def w
      proof (intro conjI allI impI)
        show "snd (p2, l @ [b]) = working_set H q bs @ [b]" using l by simp
      next
        fix a assume "\<not> (a \<in> set (bs @ [b]) \<and> maybe_untracked H a)"
        then have "\<not> (a \<in> set bs \<and> maybe_untracked H a)" by auto
        then show "PyGC_TRACKED (fst (p2, l @ [b]) a) = PyGC_TRACKED (q a)"
          using tr [of a] by (simp add: t2)
      next
        fix a assume a: "PyGC_TRACKED (q a) \<and> \<not> maybe_untracked H a \<and> PyObject_IS_GC H a"
        then have ta: "PyGC_TRACKED (p a)" using tr [of a] by simp
        note c = cnt [of a, OF a [THEN conjunct1] a [THEN conjunct2, THEN conjunct1]
            a [THEN conjunct2, THEN conjunct2]]
        show "fst (p2, l @ [b]) a = gc_add_refs (q a)
             ((if a \<in> set (bs @ [b]) then refcount H a else 0)
                - internal_refs H (working_set H q bs @ [b]) a)"
        proof (cases "a = b")
          case True
          then have nb: "a \<notin> set bs" using d(2) by simp
          have "p2 a = gc_add_refs (gc_add_refs (p a) (refcount H a)) (- int (count_list (tp_traverse H b) a))"
            using a ta True by (simp add: p2a p1_def)
          also have "\<dots> = gc_add_refs (q a) (0 - internal_refs H (working_set H q bs) a
               + refcount H a + (- int (count_list (tp_traverse H b) a)))"
          proof -
            have "p a = gc_add_refs (q a) (0 - internal_refs H (working_set H q bs) a)"
              using c nb by simp
            then show ?thesis by (simp only: gc_add_refs_add)
          qed
          finally show ?thesis using True by (simp add: internal_refs_snoc algebra_simps)
        next
          case False
          have "p2 a = gc_add_refs (p a) (- int (count_list (tp_traverse H b) a))"
            using a ta False by (simp add: p2a p1_def)
          also have "\<dots> = gc_add_refs (q a) ((if a \<in> set bs then refcount H a else 0)
               - internal_refs H (working_set H q bs) a + (- int (count_list (tp_traverse H b) a)))"
            using c by (simp only: gc_add_refs_add)
          finally show ?thesis using False by (simp add: internal_refs_snoc algebra_simps)
        qed
      qed
    qed
  qed
qed

lemma tracked_stacks:
  "PyGC_TRACKED (visit_thread_stacks H stack p0 a) = PyGC_TRACKED (p0 a)"
  by (simp add: visit_thread_stacks_def fold_visit_incref)

lemma working_set_stacks:
  "working_set H (visit_thread_stacks H stack p0) blocks = working_set H p0 blocks"
  by (simp only: working_set_def tracked_stacks)

lemma working_set_pass:
  assumes d: "distinct blocks"
  shows "snd (visit_heap (update_refs H) blocks (visit_thread_stacks H stack p0, []))
     = working_set H p0 blocks"
  using pass_inv_visit_heap [OF d, of H "visit_thread_stacks H stack p0"]
  unfolding pass_inv_def by (simp only: working_set_stacks)

lemma refcount_pass:
  assumes d: "distinct blocks"
    and op: "op \<in> set (working_set H p0 blocks)" "PyObject_IS_GC H op"
  shows "fst (visit_heap (update_refs H) blocks (visit_thread_stacks H stack p0, [])) op
     = gc_add_refs (p0 op) (external_refs H stack (working_set H p0 blocks) op)"
proof -
  let ?q = "visit_thread_stacks H stack p0"
  let ?st = "visit_heap (update_refs H) blocks (?q, [])"
  from op have o: "op \<in> set blocks" "PyGC_TRACKED (p0 op)" "\<not> maybe_untracked H op"
    by (simp_all add: working_set_def)
  have q: "?q op = gc_add_refs (p0 op) (int (count_list stack op))"
    using o op(2) by (simp add: visit_thread_stacks_def fold_visit_incref)
  then have tq: "PyGC_TRACKED (?q op)" using o by simp
  from pass_inv_visit_heap [OF d, of H ?q]
  have c: "fst ?st op = gc_add_refs (?q op)
        ((if op \<in> set blocks then refcount H op else 0) - internal_refs H (working_set H ?q blocks) op)"
    using tq o op(2) unfolding pass_inv_def by blast
  show "fst ?st op = gc_add_refs (p0 op) (external_refs H stack (working_set H p0 blocks) op)"
    unfolding c q gc_add_refs_add working_set_stacks using o
    by (simp add: external_refs_def algebra_simps)
qed

subsection \<open>The invariant of \<open>move_unreachable\<close>\<close>

lemma partition_invD:
  assumes "partition_inv H W roots s"
  shows "distinct (scanned s @ pending s @ unreachable s)"
    and "set (scanned s @ pending s @ unreachable s) = W"
    and "\<And>x. x \<in> set (unreachable s) \<Longrightarrow> gc_is_unreachable (gc_prevs s x) \<and> 0 \<le> gc_get_refs (gc_prevs s x)"
    and "\<And>x. x \<in> set (scanned s @ pending s) \<Longrightarrow>
          \<not> gc_is_unreachable (gc_prevs s x) \<and> 0 \<le> gc_get_refs (gc_prevs s x)"
    and "\<And>x. x \<in> set (scanned s) \<Longrightarrow> 0 < gc_get_refs (gc_prevs s x)"
    and "\<And>x. marked s x \<Longrightarrow> x \<in> (edges H W)\<^sup>* `` roots"
    and "\<And>x y. x \<in> set (scanned s) \<Longrightarrow> y \<in> set (tp_traverse H x) \<Longrightarrow> y \<in> W \<Longrightarrow>
          PyObject_IS_GC H y \<Longrightarrow> marked s y"
    and "\<And>x. x \<in> roots \<Longrightarrow> marked s x"
  using assms unfolding partition_inv_def by blast+

lemma partition_invI:
  assumes "distinct (scanned s @ pending s @ unreachable s)"
    and "set (scanned s @ pending s @ unreachable s) = W"
    and "\<And>x. x \<in> set (unreachable s) \<Longrightarrow> gc_is_unreachable (gc_prevs s x) \<and> 0 \<le> gc_get_refs (gc_prevs s x)"
    and "\<And>x. x \<in> set (scanned s @ pending s) \<Longrightarrow>
          \<not> gc_is_unreachable (gc_prevs s x) \<and> 0 \<le> gc_get_refs (gc_prevs s x)"
    and "\<And>x. x \<in> set (scanned s) \<Longrightarrow> 0 < gc_get_refs (gc_prevs s x)"
    and "\<And>x. marked s x \<Longrightarrow> x \<in> (edges H W)\<^sup>* `` roots"
    and "\<And>x y. x \<in> set (scanned s) \<Longrightarrow> y \<in> set (tp_traverse H x) \<Longrightarrow> y \<in> W \<Longrightarrow>
          PyObject_IS_GC H y \<Longrightarrow> marked s y"
    and "\<And>x. x \<in> roots \<Longrightarrow> marked s x"
  shows "partition_inv H W roots s"
  unfolding partition_inv_def using assms by blast

lemma split_at:
  assumes "y \<in> set xs" "distinct xs"
  shows "\<exists>b a. xs = b @ y # a \<and> takeWhile (\<lambda>x. x \<noteq> y) xs = b
    \<and> tl (dropWhile (\<lambda>x. x \<noteq> y) xs) = a \<and> y \<notin> set b \<and> y \<notin> set a"
proof -
  from split_list [OF assms(1)] obtain b a where e: "xs = b @ y # a" by blast
  with assms(2) have n: "y \<notin> set b" "y \<notin> set a" by auto
  have "takeWhile (\<lambda>x. x \<noteq> y) xs = b"
    unfolding e using n(1) by (subst takeWhile_append2) auto
  moreover have "tl (dropWhile (\<lambda>x. x \<noteq> y) xs) = a"
    unfolding e using n(1) by (subst dropWhile_append2) auto
  ultimately show ?thesis using e n by blast
qed

text \<open>Moving a node back from unreachable to the end of young.\<close>

lemma inv_move_back:
  assumes inv: "partition_inv H W roots s"
    and u: "unreachable s = b @ y # a"
    and r: "y \<in> (edges H W)\<^sup>* `` roots"
    and p1: "gc_get_refs (p' y) = 1" "\<not> gc_is_unreachable (p' y)"
    and p2: "\<And>z. z \<noteq> y \<Longrightarrow> z \<notin> set a \<Longrightarrow> p' z = gc_prevs s z"
    and p3: "\<And>z. z \<in> set a \<Longrightarrow> gc_is_unreachable (p' z) \<and> 0 \<le> gc_get_refs (p' z)"
  defines "s' \<equiv> s\<lparr>gc_prevs := p', pending := pending s @ [y], unreachable := b @ a\<rparr>"
  shows "partition_inv H W roots s'" and "\<And>z. marked s z \<Longrightarrow> marked s' z" and "marked s' y"
proof -
  note d = partition_invD [OF inv]
  have dis: "distinct (scanned s @ pending s @ b @ y # a)" using d(1) u by simp
  have yn: "y \<notin> set (scanned s)" "y \<notin> set (pending s)" "y \<notin> set b" "y \<notin> set a"
    using dis by auto
  have an: "z \<notin> set (scanned s)" "z \<notin> set (pending s)" "z \<noteq> y" if "z \<in> set a" for z
    using dis that by auto
  have same: "p' z = gc_prevs s z" if "z \<in> set (scanned s @ pending s)" for z
    using that yn an by (intro p2) auto
  show m: "marked s z \<Longrightarrow> marked s' z" for z
    using same [of z] by (auto simp: marked_def s'_def)
  show my: "marked s' y"
    by (simp add: marked_def s'_def p1)
  have mconv: "marked s z" if "marked s' z" "z \<noteq> y" for z
    using that same [of z] by (auto simp: marked_def s'_def)
  show "partition_inv H W roots s'"
  proof (rule partition_invI)
    show "distinct (scanned s' @ pending s' @ unreachable s')"
      using dis by (auto simp: s'_def)
    show "set (scanned s' @ pending s' @ unreachable s') = W"
      using d(2) u by (auto simp: s'_def)
    show "gc_is_unreachable (gc_prevs s' x) \<and> 0 \<le> gc_get_refs (gc_prevs s' x)"
      if "x \<in> set (unreachable s')" for x
    proof (cases "x \<in> set a")
      case True
      then show ?thesis using p3 by (simp add: s'_def)
    next
      case False
      then have xb: "x \<in> set b" using that by (simp add: s'_def)
      then have "x \<noteq> y" using yn by auto
      then have "p' x = gc_prevs s x" using False by (intro p2)
      moreover have "x \<in> set (unreachable s)" using xb u by simp
      ultimately show ?thesis using d(3) by (simp add: s'_def)
    qed
    show "\<not> gc_is_unreachable (gc_prevs s' x) \<and> 0 \<le> gc_get_refs (gc_prevs s' x)"
      if "x \<in> set (scanned s' @ pending s')" for x
    proof (cases "x = y")
      case True
      then show ?thesis using p1 by (simp add: s'_def)
    next
      case False
      then have "x \<in> set (scanned s @ pending s)" using that by (auto simp: s'_def)
      then show ?thesis using same [of x] d(4) [of x] by (simp add: s'_def)
    qed
    show "0 < gc_get_refs (gc_prevs s' x)" if "x \<in> set (scanned s')" for x
      using that same [of x] d(5) [of x] by (simp add: s'_def)
    show "x \<in> (edges H W)\<^sup>* `` roots" if "marked s' x" for x
      using that r mconv d(6) by (cases "x = y") auto
    show "marked s' z" if "x \<in> set (scanned s')" "z \<in> set (tp_traverse H x)" "z \<in> W"
      "PyObject_IS_GC H z" for x z
      using that d(7) [of x z] m by (simp add: s'_def)
    show "marked s' x" if "x \<in> roots" for x
      using that d(8) m by blast
  qed
qed

text \<open>Marking a node of young that still had \<open>gc_refs = 0\<close>.\<close>

lemma inv_mark:
  assumes inv: "partition_inv H W roots s"
    and y: "y \<in> set (scanned s @ pending s)"
    and r: "y \<in> (edges H W)\<^sup>* `` roots"
  defines "s' \<equiv> s\<lparr>gc_prevs := (gc_prevs s)(y := gc_set_refs (gc_prevs s y) 1)\<rparr>"
  shows "partition_inv H W roots s'" and "\<And>z. marked s z \<Longrightarrow> marked s' z" and "marked s' y"
proof -
  note d = partition_invD [OF inv]
  have yu: "y \<notin> set (unreachable s)" using d(1) y by auto
  show m: "marked s z \<Longrightarrow> marked s' z" for z
    by (auto simp: marked_def s'_def)
  show my: "marked s' y"
    using y by (simp add: marked_def s'_def)
  have mconv: "marked s z" if "marked s' z" "z \<noteq> y" for z
    using that by (auto simp: marked_def s'_def)
  show "partition_inv H W roots s'"
  proof (rule partition_invI)
    show "distinct (scanned s' @ pending s' @ unreachable s')"
      using d(1) by (simp add: s'_def)
    show "set (scanned s' @ pending s' @ unreachable s') = W"
      using d(2) by (simp add: s'_def)
    show "gc_is_unreachable (gc_prevs s' x) \<and> 0 \<le> gc_get_refs (gc_prevs s' x)"
      if "x \<in> set (unreachable s')" for x
      using that yu d(3) [of x] by (auto simp: s'_def)
    show "\<not> gc_is_unreachable (gc_prevs s' x) \<and> 0 \<le> gc_get_refs (gc_prevs s' x)"
      if "x \<in> set (scanned s' @ pending s')" for x
      using that d(4) [of x] by (auto simp: s'_def)
    show "0 < gc_get_refs (gc_prevs s' x)" if "x \<in> set (scanned s')" for x
      using that d(5) [of x] by (auto simp: s'_def)
    show "x \<in> (edges H W)\<^sup>* `` roots" if "marked s' x" for x
      using that r mconv d(6) by (cases "x = y") auto
    show "marked s' z" if "x \<in> set (scanned s')" "z \<in> set (tp_traverse H x)" "z \<in> W"
      "PyObject_IS_GC H z" for x z
      using that d(7) [of x z] m by (simp add: s'_def)
    show "marked s' x" if "x \<in> roots" for x
      using that d(8) m by blast
  qed
qed

lemma visit_post_refl: "partition_inv H W roots s \<Longrightarrow> visit_post H W roots s s"
  by (simp add: visit_post_def)

lemma visit_post_trans:
  "visit_post H W roots s s' \<Longrightarrow> visit_post H W roots s' s'' \<Longrightarrow> visit_post H W roots s s''"
  unfolding visit_post_def by auto

text \<open>
  A call of \<open>visit_reachable\<close> made while a reachable node is traversed aborts on no
  assertion and keeps the invariant; it moves nodes only from \<open>unreachable\<close> to the end
  of \<open>pending\<close>.
\<close>

lemma visit_reachable_ok:
  assumes inv: "partition_inv H W roots s"
    and vp: "valid_gc_ptr young_head" "valid_gc_ptr unreachable_head" "\<forall>x \<in> W. valid_gc_ptr x"
    and c: "c \<in> W" "c \<in> (edges H W)\<^sup>* `` roots" "y \<in> set (tp_traverse H c)"
  shows "\<exists>s'. visit_reachable H young_head unreachable_head y s = Inr s'
    \<and> visit_post H W roots s s' \<and> (y \<in> W \<and> PyObject_IS_GC H y \<longrightarrow> marked s' y)"
proof (cases "PyObject_IS_GC H y \<and> y \<in> W")
  case False
  note d = partition_invD [OF inv]
  have "visit_reachable H young_head unreachable_head y s = Inr s"
    using False d(2) by (auto simp: visit_reachable_def)
  then show ?thesis using False inv by (auto simp: visit_post_refl)
next
  case True
  note d = partition_invD [OF inv]
  have yl: "y \<in> set (scanned s @ pending s @ unreachable s)" using True d(2) by simp
  have yr: "y \<in> (edges H W)\<^sup>* `` roots"
  proof -
    have "(c, y) \<in> edges H W" using c True by (simp add: edges_def)
    then show ?thesis using c(2) by (auto intro: rtrancl_into_rtrancl)
  qed
  have nonneg: "0 \<le> gc_get_refs (gc_prevs s y)"
    using yl d(3) [of y] d(4) [of y] by auto
  show ?thesis
  proof (cases "gc_is_unreachable (gc_prevs s y)")
    case unr: True
    then have yu: "y \<in> set (unreachable s)" using yl d(4) [of y] by auto
    have du: "distinct (unreachable s)" using d(1) by simp
    from split_at [OF yu du] obtain b a where
      ba: "unreachable s = b @ y # a" "takeWhile (\<lambda>x. x \<noteq> y) (unreachable s) = b"
        "tl (dropWhile (\<lambda>x. x \<noteq> y) (unreachable s)) = a" "y \<notin> set b" "y \<notin> set a"
      by blast
    define prev where "prev = last (unreachable_head # b)"
    define p1 where "p1 = (case a of [] \<Rightarrow> gc_prevs s
        | next # _ \<Rightarrow> (gc_prevs s)(next := PyGCHead_SET_PREV (gc_prevs s next) prev))"
    define last_young where "last_young = last (young_head # scanned s @ pending s)"
    define p4 where "p4 = (p1(y := gc_set_refs (PyGCHead_SET_PREV (p1 y) last_young) 1))
        (y := gc_set_refs (PyGCHead_SET_PREV (p1 y) last_young) 1 AND NOT PyGC_PREV_MASK_UNREACHABLE)"
    define s' where "s' = s\<lparr>gc_prevs := p4, pending := pending s @ [y], unreachable := b @ a\<rparr>"
    have res: "visit_reachable H young_head unreachable_head y s = Inr s'"
      using True yl nonneg unr
      unfolding s'_def p4_def p1_def prev_def last_young_def
      by (simp add: visit_reachable_def Let_def ba(2,3) del: last.simps)
    have "set b \<subseteq> W" using d(2) ba(1) by auto
    then have pv: "valid_gc_ptr prev"
      using vp(2,3) unfolding prev_def by (cases b rule: rev_cases) auto
    have q1: "gc_get_refs (p4 y) = 1" "\<not> gc_is_unreachable (p4 y)"
      by (simp_all add: p4_def)
    have q2: "p4 z = gc_prevs s z" if "z \<noteq> y" "z \<notin> set a" for z
      using that by (auto simp: p4_def p1_def split: list.splits)
    have q3: "gc_is_unreachable (p4 z) \<and> 0 \<le> gc_get_refs (p4 z)" if "z \<in> set a" for z
    proof -
      have zy: "z \<noteq> y" using that ba(5) by auto
      have zu: "z \<in> set (unreachable s)" using that ba(1) by simp
      have "p4 z = gc_prevs s z \<or> p4 z = PyGCHead_SET_PREV (gc_prevs s z) prev"
        using zy by (auto simp: p4_def p1_def split: list.splits)
      then show ?thesis
        using d(3) [OF zu] pv
        by (auto simp: refs_SET_PREV unreachable_SET_PREV valid_gc_ptr_def)
    qed
    have "partition_inv H W roots s'" and "\<And>z. marked s z \<Longrightarrow> marked s' z" and "marked s' y"
      unfolding s'_def by (rule inv_move_back [OF inv ba(1) yr q1 q2 q3]; assumption)+
    then have "visit_post H W roots s s'"
      by (auto simp: visit_post_def s'_def ba(1))
    with res \<open>marked s' y\<close> show ?thesis by blast
  next
    case nunr: False
    then have ys: "y \<in> set (scanned s @ pending s)" using yl d(3) [of y] by auto
    show ?thesis
    proof (cases "gc_get_refs (gc_prevs s y) = 0")
      case True
      define s' where "s' = s\<lparr>gc_prevs := (gc_prevs s)(y := gc_set_refs (gc_prevs s y) 1)\<rparr>"
      have res: "visit_reachable H young_head unreachable_head y s = Inr s'"
        using \<open>PyObject_IS_GC H y \<and> y \<in> W\<close> yl nunr True
        by (simp add: visit_reachable_def s'_def)
      have "partition_inv H W roots s'" and "\<And>z. marked s z \<Longrightarrow> marked s' z" and "marked s' y"
        unfolding s'_def by (rule inv_mark [OF inv ys yr]; assumption)+
      then have "visit_post H W roots s s'"
        by (auto simp: visit_post_def s'_def)
      with res \<open>marked s' y\<close> show ?thesis by blast
    next
      case False
      then have "visit_reachable H young_head unreachable_head y s = Inr s"
        using \<open>PyObject_IS_GC H y \<and> y \<in> W\<close> yl nunr nonneg
        by (simp add: visit_reachable_def)
      moreover have "marked s y" using False nonneg ys by (simp add: marked_def)
      ultimately show ?thesis using inv by (auto simp: visit_post_refl)
    qed
  qed
qed

lemma traverse_reachable_ok:
  assumes vp: "valid_gc_ptr young_head" "valid_gc_ptr unreachable_head" "\<forall>x \<in> W. valid_gc_ptr x"
    and c: "c \<in> W" "c \<in> (edges H W)\<^sup>* `` roots"
  shows "partition_inv H W roots s \<Longrightarrow> set ops \<subseteq> set (tp_traverse H c) \<Longrightarrow>
    \<exists>s'. traverse_reachable H young_head unreachable_head ops s = Inr s'
      \<and> visit_post H W roots s s'
      \<and> (\<forall>y \<in> set ops. y \<in> W \<and> PyObject_IS_GC H y \<longrightarrow> marked s' y)"
proof (induction ops arbitrary: s)
  case Nil
  then show ?case by (simp add: visit_post_refl)
next
  case (Cons y ops)
  from Cons.prems have y: "y \<in> set (tp_traverse H c)" and sub: "set ops \<subseteq> set (tp_traverse H c)"
    by auto
  from visit_reachable_ok [OF Cons.prems(1) vp c y] obtain s1 where
    s1: "visit_reachable H young_head unreachable_head y s = Inr s1" "visit_post H W roots s s1"
      "y \<in> W \<and> PyObject_IS_GC H y \<longrightarrow> marked s1 y"
    by blast
  have inv1: "partition_inv H W roots s1" using s1(2) by (simp add: visit_post_def)
  from Cons.IH [OF inv1 sub] obtain s2 where
    s2: "traverse_reachable H young_head unreachable_head ops s1 = Inr s2" "visit_post H W roots s1 s2"
      "\<forall>y \<in> set ops. y \<in> W \<and> PyObject_IS_GC H y \<longrightarrow> marked s2 y"
    by blast
  have "marked s2 y" if "y \<in> W \<and> PyObject_IS_GC H y"
    using that s1(3) s2(2) by (simp add: visit_post_def)
  then show ?case
    using s1(1) s2(1,3) visit_post_trans [OF s1(2) s2(2)] by auto
qed

lemma last_valid:
  assumes "valid_gc_ptr h" "\<forall>x \<in> W. valid_gc_ptr x" "set xs \<subseteq> W"
  shows "valid_gc_ptr (last (h # xs))"
  using assms by (cases xs rule: rev_cases) auto

text \<open>The scanned node joins the scanned prefix and has its back pointer restored.\<close>

lemma inv_scan:
  assumes inv: "partition_inv H W roots s"
    and p: "pending s = c # rest"
    and m: "0 < gc_get_refs (gc_prevs s c)"
    and succ: "\<And>y. y \<in> set (tp_traverse H c) \<Longrightarrow> y \<in> W \<Longrightarrow> PyObject_IS_GC H y \<Longrightarrow> marked s y"
    and q: "valid_gc_ptr q"
  defines "s' \<equiv> s\<lparr>gc_prevs := (gc_prevs s)(c := PyGCHead_SET_PREV (gc_prevs s c) q),
      scanned := scanned s @ [c], pending := rest\<rparr>"
  shows "partition_inv H W roots s'"
proof -
  note d = partition_invD [OF inv]
  have cu: "c \<notin> set (unreachable s)" "c \<notin> set (scanned s)" "c \<notin> set rest"
    using d(1) p by auto
  have qpos: "0 < gc_get_refs (PyGCHead_SET_PREV (gc_prevs s c) q)"
    using q by (simp add: refs_SET_PREV valid_gc_ptr_def)
  have cf: "\<not> gc_is_unreachable (PyGCHead_SET_PREV (gc_prevs s c) q)"
    using d(4) [of c] p q by (simp add: unreachable_SET_PREV)
  have mk: "marked s' z \<longleftrightarrow> marked s z" for z
    using m qpos p by (auto simp: marked_def s'_def)
  show ?thesis
  proof (rule partition_invI)
    show "distinct (scanned s' @ pending s' @ unreachable s')"
      using d(1) p by (auto simp: s'_def)
    show "set (scanned s' @ pending s' @ unreachable s') = W"
      using d(2) p by (auto simp: s'_def)
    show "gc_is_unreachable (gc_prevs s' x) \<and> 0 \<le> gc_get_refs (gc_prevs s' x)"
      if "x \<in> set (unreachable s')" for x
      using that cu d(3) [of x] by (auto simp: s'_def)
    show "\<not> gc_is_unreachable (gc_prevs s' x) \<and> 0 \<le> gc_get_refs (gc_prevs s' x)"
      if "x \<in> set (scanned s' @ pending s')" for x
      using that d(4) [of x] p qpos cf by (auto simp: s'_def)
    show "0 < gc_get_refs (gc_prevs s' x)" if "x \<in> set (scanned s')" for x
      using that d(5) [of x] qpos by (auto simp: s'_def)
    show "x \<in> (edges H W)\<^sup>* `` roots" if "marked s' x" for x
      using that d(6) mk by blast
    show "marked s' z" if "x \<in> set (scanned s')" "z \<in> set (tp_traverse H x)" "z \<in> W"
      "PyObject_IS_GC H z" for x z
    proof (cases "x = c")
      case True
      then show ?thesis using that succ mk by blast
    next
      case False
      then have "x \<in> set (scanned s)" using that(1) by (simp add: s'_def)
      then show ?thesis using d(7) [of x z] that mk by blast
    qed
    show "marked s' x" if "x \<in> roots" for x
      using that d(8) mk by blast
  qed
qed

text \<open>A node with \<open>gc_refs = 0\<close> is moved to the end of unreachable and flagged.\<close>

lemma inv_move_out:
  assumes inv: "partition_inv H W roots s"
    and p: "pending s = c # rest"
    and z: "gc_get_refs (gc_prevs s c) = 0"
    and q: "valid_gc_ptr q"
  defines "s' \<equiv> s\<lparr>gc_prevs := (gc_prevs s)(c :=
        gc_set_unreachable (PyGCHead_SET_PREV (gc_prevs s c) q)),
      pending := rest, unreachable := unreachable s @ [c]\<rparr>"
  shows "partition_inv H W roots s'"
proof -
  note d = partition_invD [OF inv]
  have cu: "c \<notin> set (unreachable s)" "c \<notin> set (scanned s)" "c \<notin> set rest"
    using d(1) p by auto
  have nm: "\<not> marked s c" using z by (simp add: marked_def)
  have mk: "marked s' x \<longleftrightarrow> marked s x" for x
    using cu p nm by (auto simp: marked_def s'_def)
  show ?thesis
  proof (rule partition_invI)
    show "distinct (scanned s' @ pending s' @ unreachable s')"
      using d(1) p by (auto simp: s'_def)
    show "set (scanned s' @ pending s' @ unreachable s') = W"
      using d(2) p by (auto simp: s'_def)
    show "gc_is_unreachable (gc_prevs s' x) \<and> 0 \<le> gc_get_refs (gc_prevs s' x)"
      if "x \<in> set (unreachable s')" for x
      using that cu d(3) [of x] q by (auto simp: s'_def refs_SET_PREV valid_gc_ptr_def)
    show "\<not> gc_is_unreachable (gc_prevs s' x) \<and> 0 \<le> gc_get_refs (gc_prevs s' x)"
      if "x \<in> set (scanned s' @ pending s')" for x
      using that d(4) [of x] p cu by (auto simp: s'_def)
    show "0 < gc_get_refs (gc_prevs s' x)" if "x \<in> set (scanned s')" for x
      using that d(5) [of x] cu by (auto simp: s'_def)
    show "x \<in> (edges H W)\<^sup>* `` roots" if "marked s' x" for x
      using that d(6) mk by blast
    show "marked s' y" if "x \<in> set (scanned s')" "y \<in> set (tp_traverse H x)" "y \<in> W"
      "PyObject_IS_GC H y" for x y
      using that d(7) [of x y] mk by (simp add: s'_def)
    show "marked s' x" if "x \<in> roots" for x
      using that d(8) mk by blast
  qed
qed

text \<open>
  The loop terminates with the invariant and nothing pending. A round that moves the node
  at the cursor to \<open>unreachable\<close> shortens \<open>pending\<close> and keeps the joint length of
  \<open>pending\<close> and \<open>unreachable\<close>; a round that scans it shortens the joint length, since
  the traversal only moves nodes from \<open>unreachable\<close> to \<open>pending\<close>.
\<close>

lemma move_unreachable_loop_ok:
  assumes vp: "valid_gc_ptr young_head" "valid_gc_ptr unreachable_head" "\<forall>x \<in> W. valid_gc_ptr x"
    and inv0: "partition_inv H W roots s"
  shows "\<exists>r. move_unreachable_loop H young_head unreachable_head s = Some (Inr r)
      \<and> partition_inv H W roots r \<and> pending r = []"
proof -
  have wf: "wf (inv_image (less_than <*lex*> less_than)
      (\<lambda>s :: partition. (length (pending s) + length (unreachable s), length (pending s))))"
    by (intro wf_inv_image wf_lex_prod wf_less_than)
  from wf inv0 show ?thesis
  proof (induction s rule: wf_induct_rule)
  case (less s)
  note inv = less.prems
  note d = partition_invD [OF inv]
  show ?case
  proof (cases "pending s")
    case Nil
    then show ?thesis using inv by (subst move_unreachable_loop.simps) simp
  next
    case (Cons c rest)
    have cW: "c \<in> W" using d(2) Cons by auto
    have cn: "0 \<le> gc_get_refs (gc_prevs s c)" using d(4) [of c] Cons by simp
    show ?thesis
    proof (cases "gc_get_refs (gc_prevs s c) = 0")
      case True
      define s' where "s' = s\<lparr>gc_prevs := (gc_prevs s)(c :=
            gc_set_unreachable (PyGCHead_SET_PREV (gc_prevs s c)
              (last (unreachable_head # unreachable s)))),
          pending := rest, unreachable := unreachable s @ [c]\<rparr>"
      have "set (unreachable s) \<subseteq> W" using d(2) by auto
      then have q: "valid_gc_ptr (last (unreachable_head # unreachable s))"
        by (rule last_valid [OF vp(2,3)])
      have inv': "partition_inv H W roots s'"
        unfolding s'_def by (rule inv_move_out [OF inv Cons True q])
      have less: "(s', s) \<in> inv_image (less_than <*lex*> less_than)
          (\<lambda>s. (length (pending s) + length (unreachable s), length (pending s)))"
        using Cons by (simp add: s'_def)
      have step: "move_unreachable_loop H young_head unreachable_head s
          = move_unreachable_loop H young_head unreachable_head s'"
        using Cons True by (subst move_unreachable_loop.simps) (simp add: s'_def)
      from less.IH [OF less inv'] show ?thesis unfolding step .
    next
      case False
      then have pos: "0 < gc_get_refs (gc_prevs s c)" using cn by simp
      then have mc: "marked s c" using Cons by (simp add: marked_def)
      then have cR: "c \<in> (edges H W)\<^sup>* `` roots" by (rule d(6))
      from traverse_reachable_ok [OF vp cW cR inv subset_refl] obtain s1 where
        s1: "traverse_reachable H young_head unreachable_head (tp_traverse H c) s = Inr s1"
          "visit_post H W roots s s1"
          "\<forall>y \<in> set (tp_traverse H c). y \<in> W \<and> PyObject_IS_GC H y \<longrightarrow> marked s1 y"
        by blast
      from s1(2) obtain ys where
        inv1: "partition_inv H W roots s1" and sc: "scanned s1 = scanned s"
        and pe: "pending s1 = c # rest @ ys"
        and len: "length (pending s1) + length (unreachable s1)
            = length (pending s) + length (unreachable s)"
        and mono: "\<And>z. marked s z \<Longrightarrow> marked s1 z"
        using Cons by (auto simp: visit_post_def)
      define s' where "s' = s1\<lparr>gc_prevs := (gc_prevs s1)(c :=
            PyGCHead_SET_PREV (gc_prevs s1 c) (last (young_head # scanned s1))),
          scanned := scanned s1 @ [c], pending := tl (pending s1)\<rparr>"
      have "set (scanned s1) \<subseteq> W" using partition_invD(2) [OF inv1] by auto
      then have q: "valid_gc_ptr (last (young_head # scanned s1))"
        by (rule last_valid [OF vp(1,3)])
      have pos1: "0 < gc_get_refs (gc_prevs s1 c)"
        using mono [OF mc] by (simp add: marked_def)
      have inv': "partition_inv H W roots s'"
        unfolding s'_def pe list.sel
        by (rule inv_scan [OF inv1 pe pos1 _ q]) (use s1(3) in blast)
      have less: "(s', s) \<in> inv_image (less_than <*lex*> less_than)
          (\<lambda>s. (length (pending s) + length (unreachable s), length (pending s)))"
        using len pe by (simp add: s'_def)
      have step: "move_unreachable_loop H young_head unreachable_head s
          = move_unreachable_loop H young_head unreachable_head s'"
        using Cons False cn s1(1) by (subst move_unreachable_loop.simps) (simp add: s'_def)
      from less.IH [OF less inv'] show ?thesis unfolding step .
    qed
  qed
qed
qed

text \<open>When nothing is pending, young holds the reachable nodes and unreachable the rest.\<close>

lemma partition_final:
  assumes inv: "partition_inv H W roots r" and e: "pending r = []"
  shows "set (scanned r) = (edges H W)\<^sup>* `` roots"
    and "set (unreachable r) = W - (edges H W)\<^sup>* `` roots"
    and "\<forall>x \<in> set (scanned r). \<not> gc_is_unreachable (gc_prevs r x)"
    and "\<forall>x \<in> set (unreachable r). gc_is_unreachable (gc_prevs r x)"
    and "distinct (scanned r)" "distinct (unreachable r)"
proof -
  note d = partition_invD [OF inv]
  have sm: "x \<in> set (scanned r) \<longleftrightarrow> marked r x" for x
    using d(5) [of x] e by (auto simp: marked_def)
  have sub: "set (scanned r) \<subseteq> (edges H W)\<^sup>* `` roots"
    using sm d(6) by blast
  have "y \<in> set (scanned r)" if "(x, y) \<in> (edges H W)\<^sup>*" "x \<in> roots" for x y
    using that
  proof (induction rule: rtrancl_induct)
    case base
    then show ?case using d(8) sm by blast
  next
    case (step y z)
    then have "y \<in> set (scanned r)" by blast
    moreover from step(2) have "z \<in> W" "PyObject_IS_GC H z" "z \<in> set (tp_traverse H y)"
      by (auto simp: edges_def)
    ultimately show ?case using d(7) [of y z] sm by blast
  qed
  with sub show s: "set (scanned r) = (edges H W)\<^sup>* `` roots" by blast
  show "set (unreachable r) = W - (edges H W)\<^sup>* `` roots"
    using d(1,2) e s [symmetric] by auto
  show "\<forall>x \<in> set (scanned r). \<not> gc_is_unreachable (gc_prevs r x)"
    using d(4) by simp
  show "\<forall>x \<in> set (unreachable r). gc_is_unreachable (gc_prevs r x)"
    using d(3) by simp
  show "distinct (scanned r)" "distinct (unreachable r)"
    using d(1) by simp_all
qed

subsection \<open>The partition into reachable and unreachable objects\<close>

text \<open>
  C1. Let the blocks of the heap be distinct, let the objects of the working set be
  collectable objects at valid addresses whose headers hold only flags before the
  collection, UNREACHABLE clear, and let the reference counts be consistent: no object of
  the working set has more references from the working set than its count and the thread
  stacks account for, and the excess fits \<open>gc_refs\<close>. Then the refcount-subtraction pass,
  \<open>visit_thread_stacks\<close> followed by \<open>visit_heap\<close> with \<open>update_refs\<close>, builds the working
  set as the list \<open>young\<close> and leaves in every object of it the number of its references
  from outside the working set as \<open>gc_refs\<close>, which is positive exactly when the object is
  referenced from outside. \<open>move_unreachable\<close> then returns, with no assertion failed and
  nothing left to walk. The objects left in \<open>young\<close> are those that a chain of references
  reaches from an object referenced from outside, and their UNREACHABLE bit is clear; the
  objects of \<open>unreachable\<close> are the rest of the working set, and their UNREACHABLE bit is
  set.
\<close>

theorem deduce_unreachable_partitions:
  assumes d: "distinct blocks"
    and b: "\<forall>b \<in> set (working_set H p0 blocks). PyObject_IS_GC H b \<and> valid_gc_ptr b
          \<and> p0 b AND PyGC_PREV_MASK = 0 \<and> \<not> gc_is_unreachable (p0 b)"
    and vh: "valid_gc_ptr young_head" "valid_gc_ptr unreachable_head"
    and r: "\<forall>op \<in> set (working_set H p0 blocks).
          0 \<le> external_refs H stack (working_set H p0 blocks) op
        \<and> external_refs H stack (working_set H p0 blocks) op < 2 ^ 60"
  shows "\<exists>p r. visit_heap (update_refs H) blocks (visit_thread_stacks H stack p0, [])
        = (p, working_set H p0 blocks)
    \<and> (\<forall>op \<in> set (working_set H p0 blocks).
          gc_get_refs (p op) = external_refs H stack (working_set H p0 blocks) op
        \<and> (0 < gc_get_refs (p op)) = (0 < external_refs H stack (working_set H p0 blocks) op))
    \<and> deduce_unreachable H young_head unreachable_head (p, working_set H p0 blocks) = Some (Inr r)
    \<and> pending r = []
    \<and> set (scanned r) = reachable_from_outside H stack (working_set H p0 blocks)
    \<and> set (unreachable r)
        = set (working_set H p0 blocks) - reachable_from_outside H stack (working_set H p0 blocks)
    \<and> (\<forall>x \<in> set (scanned r). \<not> gc_is_unreachable (gc_prevs r x))
    \<and> (\<forall>x \<in> set (unreachable r). gc_is_unreachable (gc_prevs r x))"
proof -
  define young where "young = working_set H p0 blocks"
  define ext where "ext = external_refs H stack young"
  define st where "st = visit_heap (update_refs H) blocks (visit_thread_stacks H stack p0, [])"
  define p where "p = fst st"
  define roots where "roots = {op \<in> set young. 0 < ext op}"
  from b have b': "PyObject_IS_GC H op" "valid_gc_ptr op" "p0 op AND PyGC_PREV_MASK = 0"
    "\<not> gc_is_unreachable (p0 op)" if "op \<in> set young" for op
    using that by (simp_all add: young_def)
  have dy: "distinct young" using d by (simp add: young_def working_set_def)
  have hdr: "p op = gc_add_refs (p0 op) (ext op)" if "op \<in> set young" for op
    unfolding p_def st_def ext_def young_def
    using that b' by (intro refcount_pass [OF d]) (simp_all add: young_def)
  have refs: "gc_get_refs (p op) = ext op" if "op \<in> set young" for op
  proof -
    from that r have "0 \<le> ext op" "ext op < 2 ^ 60" by (simp_all add: young_def ext_def)
    moreover have "p0 op AND PyGC_PREV_MASK = 0" using that b' by simp
    ultimately show ?thesis unfolding hdr [OF that]
      by (intro gc_get_refs_add_refs) simp_all
  qed
  have bit: "\<not> gc_is_unreachable (p op)" if "op \<in> set young" for op
    unfolding hdr [OF that] using that b' by simp
  have e: "st = (p, young)"
    using working_set_pass [OF d, of H stack p0]
    by (cases st) (simp add: p_def st_def young_def)
  define s0 where "s0 = \<lparr>gc_prevs = p, scanned = [], pending = young, unreachable = []\<rparr>"
  have inv: "partition_inv H (set young) roots s0"
  proof (rule partition_invI)
    show "distinct (scanned s0 @ pending s0 @ unreachable s0)" using dy by (simp add: s0_def)
    show "set (scanned s0 @ pending s0 @ unreachable s0) = set young" by (simp add: s0_def)
    show "\<And>x. x \<in> set (unreachable s0) \<Longrightarrow>
        gc_is_unreachable (gc_prevs s0 x) \<and> 0 \<le> gc_get_refs (gc_prevs s0 x)"
      by (simp add: s0_def)
    show "\<And>x. x \<in> set (scanned s0 @ pending s0) \<Longrightarrow>
        \<not> gc_is_unreachable (gc_prevs s0 x) \<and> 0 \<le> gc_get_refs (gc_prevs s0 x)"
      using bit refs r by (simp add: s0_def young_def ext_def)
    show "\<And>x. x \<in> set (scanned s0) \<Longrightarrow> 0 < gc_get_refs (gc_prevs s0 x)"
      by (simp add: s0_def)
    show "\<And>x. marked s0 x \<Longrightarrow> x \<in> (edges H (set young))\<^sup>* `` roots"
      using refs by (auto simp: marked_def s0_def roots_def)
    show "\<And>x y. x \<in> set (scanned s0) \<Longrightarrow> y \<in> set (tp_traverse H x) \<Longrightarrow> y \<in> set young \<Longrightarrow>
        PyObject_IS_GC H y \<Longrightarrow> marked s0 y"
      by (simp add: s0_def)
    show "\<And>x. x \<in> roots \<Longrightarrow> marked s0 x"
      using refs by (auto simp: marked_def s0_def roots_def)
  qed
  have vy: "\<forall>x \<in> set young. valid_gc_ptr x" using b' by simp
  from move_unreachable_loop_ok [OF vh vy inv]
  obtain res where res: "move_unreachable_loop H young_head unreachable_head s0 = Some (Inr res)"
    "partition_inv H (set young) roots res" "pending res = []" by blast
  note fin = partition_final [OF res(2,3)]
  have du: "deduce_unreachable H young_head unreachable_head (p, young) = Some (Inr res)"
    using res(1) by (simp add: deduce_unreachable_def move_unreachable_def s0_def)
  have rf: "reachable_from_outside H stack young = (edges H (set young))\<^sup>* `` roots"
    by (simp add: reachable_from_outside_def roots_def ext_def)
  have "st = (p, young)
    \<and> (\<forall>op \<in> set young. gc_get_refs (p op) = ext op
          \<and> (0 < gc_get_refs (p op)) = (0 < ext op))
    \<and> deduce_unreachable H young_head unreachable_head (p, young) = Some (Inr res)
    \<and> pending res = []
    \<and> set (scanned res) = reachable_from_outside H stack young
    \<and> set (unreachable res) = set young - reachable_from_outside H stack young
    \<and> (\<forall>x \<in> set (scanned res). \<not> gc_is_unreachable (gc_prevs res x))
    \<and> (\<forall>x \<in> set (unreachable res). gc_is_unreachable (gc_prevs res x))"
    using e refs du res(3) fin(1-4) unfolding rf by simp
  then show ?thesis unfolding st_def young_def ext_def by blast
qed

text \<open>
  The witness: on the example heap the pass leaves a positive \<open>gc_refs\<close> in \<open>0x1020\<close>
  only. The walk first moves \<open>0x1000\<close> and \<open>0x1010\<close> to \<open>unreachable\<close>, then brings them
  back behind \<open>0x1020\<close>; the cycle of \<open>0x1030\<close> and \<open>0x1040\<close> stays unreachable.
\<close>

lemma example_ws: "working_set example_types example_headers example_blocks = example_blocks"
  by (simp add: working_set_def example_types_def example_headers_def example_blocks_def
      PyGC_TRACKED_def PyGC_PREV_MASK_TRACKED_def)

lemma example_ball:
  "(\<forall>b \<in> set example_blocks. P b)
     = (P 0x1000 \<and> P 0x1010 \<and> P 0x1020 \<and> P 0x1030 \<and> P 0x1040)"
  by (simp add: example_blocks_def)

lemma example_distinct: "distinct example_blocks"
  by (simp add: example_blocks_def)

lemma example_valid:
  "valid_gc_ptr 0x1000" "valid_gc_ptr 0x1010" "valid_gc_ptr 0x1020"
  "valid_gc_ptr 0x1030" "valid_gc_ptr 0x1040" "valid_gc_ptr 0x7000" "valid_gc_ptr 0x7010"
  by (simp_all add: valid_gc_ptr_def gc_get_refs_def PyGC_PREV_MASK_def PyGC_PREV_SHIFT_def
      mask_eq_exp_minus_1)

lemma example_ext:
  "external_refs example_types [] example_blocks 0x1000 = 0"
  "external_refs example_types [] example_blocks 0x1010 = 0"
  "external_refs example_types [] example_blocks 0x1020 = 1"
  "external_refs example_types [] example_blocks 0x1030 = 0"
  "external_refs example_types [] example_blocks 0x1040 = 0"
  by (simp_all add: external_refs_def internal_refs_def example_types_def example_blocks_def)

lemma example_blocks_ok:
  "\<forall>b \<in> set (working_set example_types example_headers example_blocks).
     PyObject_IS_GC example_types b \<and> valid_gc_ptr b
     \<and> example_headers b AND PyGC_PREV_MASK = 0 \<and> \<not> gc_is_unreachable (example_headers b)"
  unfolding example_ws example_ball
  by (simp add: example_valid example_types_def example_headers_def PyGC_PREV_MASK_def
      PyGC_PREV_SHIFT_def gc_is_unreachable_def PyGC_PREV_MASK_TRACKED_def
      PyGC_PREV_MASK_UNREACHABLE_def mask_eq_exp_minus_1)

lemma example_counts:
  "\<forall>op \<in> set (working_set example_types example_headers example_blocks).
     0 \<le> external_refs example_types [] (working_set example_types example_headers example_blocks) op
   \<and> external_refs example_types [] (working_set example_types example_headers example_blocks) op
       < 2 ^ 60"
  unfolding example_ws example_ball by (simp add: example_ext)

lemma example_run:
  "map_option (map_sum id (\<lambda>r. (scanned r, pending r, unreachable r)))
     (deduce_unreachable example_types 0x7000 0x7010
        (visit_heap (update_refs example_types) example_blocks
           (visit_thread_stacks example_types [] example_headers, [])))
   = Some (Inr ([0x1020, 0x1010, 0x1000], [], [0x1030, 0x1040]))"
  by code_simp

theorem deduce_unreachable_partitions_witness:
  "\<exists>p r. visit_heap (update_refs example_types) example_blocks
            (visit_thread_stacks example_types [] example_headers, []) = (p, example_blocks)
     \<and> 0 < gc_get_refs (p 0x1020) \<and> \<not> 0 < gc_get_refs (p 0x1010)
     \<and> deduce_unreachable example_types 0x7000 0x7010 (p, example_blocks) = Some (Inr r)
     \<and> scanned r = [0x1020, 0x1010, 0x1000] \<and> pending r = []
     \<and> unreachable r = [0x1030, 0x1040]
     \<and> reachable_from_outside example_types [] example_blocks = {0x1000, 0x1010, 0x1020}
     \<and> \<not> gc_is_unreachable (gc_prevs r 0x1000) \<and> gc_is_unreachable (gc_prevs r 0x1040)"
proof -
  note t = deduce_unreachable_partitions [OF example_distinct example_blocks_ok
      example_valid(6) example_valid(7) example_counts, unfolded example_ws]
  from t obtain p where "\<exists>r. visit_heap (update_refs example_types) example_blocks
        (visit_thread_stacks example_types [] example_headers, []) = (p, example_blocks)
     \<and> (\<forall>op \<in> set example_blocks.
          gc_get_refs (p op) = external_refs example_types [] example_blocks op
        \<and> (0 < gc_get_refs (p op)) = (0 < external_refs example_types [] example_blocks op))
     \<and> deduce_unreachable example_types 0x7000 0x7010 (p, example_blocks) = Some (Inr r)
     \<and> pending r = []
     \<and> set (scanned r) = reachable_from_outside example_types [] example_blocks
     \<and> set (unreachable r) = set example_blocks - reachable_from_outside example_types [] example_blocks
     \<and> (\<forall>x \<in> set (scanned r). \<not> gc_is_unreachable (gc_prevs r x))
     \<and> (\<forall>x \<in> set (unreachable r). gc_is_unreachable (gc_prevs r x))" ..
  then obtain r where a: "visit_heap (update_refs example_types) example_blocks
        (visit_thread_stacks example_types [] example_headers, []) = (p, example_blocks)
     \<and> (\<forall>op \<in> set example_blocks.
          gc_get_refs (p op) = external_refs example_types [] example_blocks op
        \<and> (0 < gc_get_refs (p op)) = (0 < external_refs example_types [] example_blocks op))
     \<and> deduce_unreachable example_types 0x7000 0x7010 (p, example_blocks) = Some (Inr r)
     \<and> pending r = []
     \<and> set (scanned r) = reachable_from_outside example_types [] example_blocks
     \<and> set (unreachable r) = set example_blocks - reachable_from_outside example_types [] example_blocks
     \<and> (\<forall>x \<in> set (scanned r). \<not> gc_is_unreachable (gc_prevs r x))
     \<and> (\<forall>x \<in> set (unreachable r). gc_is_unreachable (gc_prevs r x))" ..
  note e = a [THEN conjunct1]
  note g = a [THEN conjunct2, THEN conjunct1]
  note du = a [THEN conjunct2, THEN conjunct2, THEN conjunct1]
  note sc = a [THEN conjunct2, THEN conjunct2, THEN conjunct2, THEN conjunct2, THEN conjunct1]
  note bs = a [THEN conjunct2, THEN conjunct2, THEN conjunct2, THEN conjunct2, THEN conjunct2,
      THEN conjunct2, THEN conjunct1]
  note bu = a [THEN conjunct2, THEN conjunct2, THEN conjunct2, THEN conjunct2, THEN conjunct2,
      THEN conjunct2, THEN conjunct2]
  from example_run have l: "scanned r = [0x1020, 0x1010, 0x1000]" "pending r = []"
    "unreachable r = [0x1030, 0x1040]"
    unfolding e du by simp_all
  from g have g': "0 < gc_get_refs (p 0x1020)" "\<not> 0 < gc_get_refs (p 0x1010)"
    unfolding example_ball by (simp_all add: example_ext)
  have "set (scanned r) = {0x1000, 0x1010, 0x1020}"
    unfolding l by (simp add: insert_commute)
  then have r': "reachable_from_outside example_types [] example_blocks
      = {0x1000, 0x1010, 0x1020}"
    unfolding sc .
  from bs bu have b': "\<not> gc_is_unreachable (gc_prevs r 0x1000)"
    "gc_is_unreachable (gc_prevs r 0x1040)"
    unfolding l by simp_all
  show ?thesis
    by (intro exI [of _ p] exI [of _ r] conjI e g' du l r' b')
qed

section \<open>Properties of the headers after the search\<close>

subsection \<open>The flags that the search keeps\<close>







subsection \<open>The list \<open>young\<close> in memory\<close>





subsection \<open>The headers when \<open>young\<close> has been cleared\<close>






end
